theory Spec2Isabelle
  imports Main
begin

section \<open>Bytes\<close>

text \<open>
  The scanner and the parser work on C \<open>char\<close> buffers. A byte is a \<^typ>\<open>char\<close>
  (eight bits), a buffer a \<^typ>\<open>string\<close>.
\<close>

definition CR :: char where
  "CR = CHR 0x0D"

definition LF :: char where
  "LF = CHR 0x0A"

definition CRLF :: string where
  "CRLF = [CR, LF]"

definition DQUOTE :: char where
  "DQUOTE = CHR 0x22"

definition BSLASH :: char where
  "BSLASH = CHR 0x5C"

text \<open>The value of a byte, from 0 to 255.\<close>

definition byte :: "char \<Rightarrow> nat" where
  "byte c = of_char c"

text \<open>\<open>'0' <= c && c <= '9'\<close>, which is \<open>isdigit\<close> in the C locale.\<close>

definition isdigit :: "char \<Rightarrow> bool" where
  "isdigit c = (48 \<le> byte c \<and> byte c \<le> 57)"

text \<open>\<open>c - '0'\<close> for a digit \<open>c\<close>.\<close>

definition digit_val :: "char \<Rightarrow> nat" where
  "digit_val c = byte c - 48"

section \<open>The line scanner (scanner.c)\<close>

text \<open>
  \<open>struct Scanner\<close>. The field \<open>buf\<close> is the allocated storage (\<open>bufcap\<close> bytes
  of it), \<open>buflen\<close> the number of bytes accumulated and not yet consumed. The
  \<open>size_t\<close> fields are natural numbers: every value the code computes in them is
  bounded by the size of an allocation.
\<close>

record scanner =
  buf :: string
  buflen :: nat
  bufcap :: nat
  start_find :: nat
  literal_left :: nat

text \<open>A scanner as \<open>PyType_GenericNew\<close> makes it: all fields zero.\<close>

definition Scanner_new :: scanner where
  "Scanner_new = \<lparr>buf = [], buflen = 0, bufcap = 0, start_find = 0, literal_left = 0\<rparr>"

datatype scan_error =
  NoMemory
  | IncompleteLiteral
  | IncompleteLine
  | BadLiteralLength
  | TooMany
  | Overflow
  | ScanSystemError

subsection \<open>feed\<close>

text \<open>
  \<open>PyLong_AsSsize_t\<close> on a Python integer: the value when it fits a
  \<open>Py_ssize_t\<close> of 64 bits, otherwise -1 with an exception set.
\<close>

definition ssize_fits :: "int \<Rightarrow> bool" where
  "ssize_fits l = (- (2 ^ 63) \<le> l \<and> l < 2 ^ 63)"

definition PyLong_AsSsize_t :: "int \<Rightarrow> int" where
  "PyLong_AsSsize_t l = (if ssize_fits l then l else - 1)"

text \<open>
  The number of bytes \<open>Scanner_feed\<close> takes from a view of \<open>vlen\<close> bytes, for
  the optional length argument (lines 36 to 47): all of it by default, at most
  \<open>vlen\<close>, a negative length counted from the end and clamped to zero. The
  result of the conversion is used as it is, also the -1 of a failed one.
\<close>

definition feed_len :: "nat \<Rightarrow> int option \<Rightarrow> nat" where
  "feed_len vlen len_obj =
     (case len_obj of
        None \<Rightarrow> vlen
      | Some l \<Rightarrow>
          (let len = PyLong_AsSsize_t l
           in if len > int vlen then vlen
              else if len < 0 then (if len < - int vlen then 0 else nat (int vlen + len))
              else nat len))"

text \<open>
  What a \<open>feed\<close> that copied its bytes returns: None, which reaches the caller
  as a \<open>SystemError\<close> when the conversion of the length had left an exception
  set.
\<close>

definition feed_result :: "int option \<Rightarrow> scan_error + unit" where
  "feed_result len_obj =
     (case len_obj of
        None \<Rightarrow> Inr ()
      | Some l \<Rightarrow> if ssize_fits l then Inr () else Inl ScanSystemError)"

text \<open>
  \<open>PyMem_RawRealloc(p, n)\<close> when it succeeds: the first \<open>min n (old size)\<close>
  bytes are kept; the bytes beyond are indeterminate in C, zero bytes here (feed
  overwrites all of them).
\<close>

definition realloc :: "string \<Rightarrow> nat \<Rightarrow> string" where
  "realloc m n = take n m @ replicate (n - length m) (CHR 0x00)"

text \<open>\<open>memcpy(&m[off], xs, length xs)\<close> on the storage \<open>m\<close>.\<close>

definition memcpy :: "string \<Rightarrow> nat \<Rightarrow> string \<Rightarrow> string" where
  "memcpy m off xs = take off m @ xs @ drop (off + length xs) m"

text \<open>
  \<open>Scanner_feed\<close>. The argument \<open>alloc_ok\<close> says whether the reallocation, if
  one is needed, succeeds. The result is the value returned (None, or the
  \<open>MemoryError\<close>) and the scanner as the call leaves it. As in the source the
  length is added to \<open>buflen\<close> first (line 49), then the storage grows.
\<close>

definition Scanner_feed :: "scanner \<Rightarrow> string \<Rightarrow> int option \<Rightarrow> bool \<Rightarrow> (scan_error + unit) \<times> scanner" where
  "Scanner_feed self view len_obj alloc_ok =
     (let len = feed_len (length view) len_obj;
          s1 = self\<lparr>buflen := buflen self + len\<rparr>
      in if buflen s1 > bufcap s1 then
           (if \<not> alloc_ok then (Inl NoMemory, s1)
            else
              let s2 = s1\<lparr>buf := realloc (buf s1) (buflen s1), bufcap := buflen s1\<rparr>
              in (feed_result len_obj,
                  s2\<lparr>buf := memcpy (buf s2) (buflen s2 - len) (take len view)\<rparr>))
         else (feed_result len_obj,
               s1\<lparr>buf := memcpy (buf s1) (buflen s1 - len) (take len view)\<rparr>))"

subsection \<open>get\<close>

text \<open>
  \<open>memmem(hay, n, "\r\n", 2)\<close>: the offset of the first CR LF in \<open>hay\<close>, if any.
\<close>

fun memmem_crlf :: "string \<Rightarrow> nat option" where
  "memmem_crlf (a # b # xs) =
     (if a = CR \<and> b = LF then Some 0 else map_option Suc (memmem_crlf (b # xs)))"
| "memmem_crlf _ = None"

text \<open>
  The call of line 84: the search runs over the bytes from \<open>start_find\<close> up to
  \<open>buflen\<close>, and the result is an offset into the buffer.
\<close>

definition find_crlf :: "scanner \<Rightarrow> nat option" where
  "find_crlf s =
     map_option (\<lambda>k. start_find s + k)
       (memmem_crlf (drop (start_find s) (take (buflen s) (buf s))))"

text \<open>
  Lines 97 and 98: from \<open>p\<close>, step back over the decimal digits before it,
  stopping at the start of the buffer.
\<close>

fun digits_back :: "string \<Rightarrow> nat \<Rightarrow> nat" where
  "digits_back b 0 = 0"
| "digits_back b (Suc p) = (if isdigit (b ! p) then digits_back b p else Suc p)"

definition ULONG_MAX :: nat where
  "ULONG_MAX = 2 ^ 64 - 1"

text \<open>The value of a run of decimal digits, most significant first.\<close>

definition digits_value :: "string \<Rightarrow> nat" where
  "digits_value ds = foldl (\<lambda>a c. 10 * a + digit_val c) 0 ds"

text \<open>
  \<open>strtoul(p, NULL, 10)\<close> where \<open>p\<close> points at decimal digits: the value of the
  digits up to the first other byte, or \<open>ERANGE\<close> (None) when it exceeds
  \<open>ULONG_MAX\<close>, an \<open>unsigned long\<close> of 64 bits.
\<close>

definition strtoul :: "string \<Rightarrow> nat option" where
  "strtoul p =
     (let v = digits_value (takeWhile isdigit p)
      in if v > ULONG_MAX then None else Some v)"

text \<open>
  Lines 71 to 82: the bytes of an active literal are skipped; when not all of
  them are there yet the call ends with "incomplete literal" (\<open>Inl\<close>).
\<close>

definition skip_literal :: "scanner \<Rightarrow> scanner + scanner" where
  "skip_literal s =
     (if literal_left s > 0 then
        (let n = buflen s - start_find s
         in if n < literal_left s then
              Inl (s\<lparr>start_find := start_find s + n, literal_left := literal_left s - n\<rparr>)
            else
              Inr (s\<lparr>start_find := start_find s + literal_left s, literal_left := 0\<rparr>))
      else Inr s)"

text \<open>
  Lines 93 to 109, for the CR LF found at offset \<open>crlf\<close>: \<open>Inl\<close> when the loop
  is left by \<open>break\<close> (the line ends here), otherwise the outcome of
  \<open>strtoul\<close> on the digits between the braces.
\<close>

definition literal_header :: "string \<Rightarrow> nat \<Rightarrow> unit + nat option" where
  "literal_header b crlf =
     (if crlf \<noteq> 0 \<and> b ! (crlf - 1) = CHR ''}'' then
        (let p = digits_back b (crlf - 1)
         in if p = 0 \<or> b ! (p - 1) \<noteq> CHR ''{'' \<or> p = crlf - 1 then Inl ()
            else Inr (strtoul (drop p b)))
      else Inl ())"

text \<open>
  \<open>Scanner_get\<close>: the result is the error, or the length of the view returned
  (the view starts at offset 0 of the buffer), and the scanner as the call
  leaves it.
\<close>

function Scanner_get :: "scanner \<Rightarrow> (scan_error + nat) \<times> scanner" where
  "Scanner_get self =
     (case skip_literal self of
        Inl s1 \<Rightarrow> (Inl IncompleteLiteral, s1)
      | Inr s1 \<Rightarrow>
          (case find_crlf s1 of
             None \<Rightarrow>
               (Inl IncompleteLine,
                if buflen s1 > 0 then s1\<lparr>start_find := buflen s1 - 1\<rparr> else s1)
           | Some crlf \<Rightarrow>
               (case literal_header (buf s1) crlf of
                  Inl _ \<Rightarrow> (Inr (crlf + 2), s1\<lparr>start_find := crlf\<rparr>)
                | Inr None \<Rightarrow> (Inl BadLiteralLength, s1)
                | Inr (Some len) \<Rightarrow>
                    Scanner_get (s1\<lparr>literal_left := len, start_find := crlf + 2\<rparr>))))"
  by pat_completeness auto

lemma memmem_crlf_bound: "memmem_crlf xs = Some k \<Longrightarrow> k + 2 \<le> length xs"
proof (induction xs arbitrary: k rule: memmem_crlf.induct)
  case (1 a b xs)
  then show ?case by (auto split: if_splits)
qed simp_all

lemma find_crlf_bound:
  assumes "find_crlf s = Some c"
  shows "start_find s \<le> c" and "c + 2 \<le> buflen s" and "start_find s + 2 \<le> buflen s"
proof -
  from assms obtain k where k: "memmem_crlf (drop (start_find s) (take (buflen s) (buf s))) = Some k"
    and c: "c = start_find s + k"
    by (auto simp: find_crlf_def)
  from memmem_crlf_bound [OF k] have "k + 2 \<le> min (length (buf s)) (buflen s) - start_find s"
    by simp
  with c show "start_find s \<le> c" and "c + 2 \<le> buflen s" and "start_find s + 2 \<le> buflen s"
    by auto
qed

lemma skip_literal_Inr:
  "skip_literal s = Inr s1 \<Longrightarrow> start_find s \<le> start_find s1 \<and> buflen s1 = buflen s"
  by (auto simp: skip_literal_def Let_def split: if_splits)

termination Scanner_get
proof (relation "measure (\<lambda>s. buflen s - start_find s)")
  show "wf (measure (\<lambda>s. buflen s - start_find s))" by simp
next
  fix self s1 crlf r len
  assume a: "skip_literal self = Inr s1" "find_crlf s1 = Some crlf"
  from skip_literal_Inr [OF a(1)] find_crlf_bound [OF a(2)]
  show "(s1\<lparr>literal_left := len, start_find := crlf + 2\<rparr>, self)
          \<in> measure (\<lambda>s. buflen s - start_find s)"
    by (simp, arith)
qed

declare Scanner_get.simps [simp del]

subsection \<open>consume\<close>

text \<open>
  \<open>memmove(m, &m[n], len)\<close>: the \<open>len\<close> bytes from offset \<open>n\<close> move to the
  front of the storage.
\<close>

definition memmove_front :: "string \<Rightarrow> nat \<Rightarrow> nat \<Rightarrow> string" where
  "memmove_front m n len = memcpy m 0 (take len (drop n m))"

definition SIZE_MAX :: int where
  "SIZE_MAX = 2 ^ 64 - 1"

text \<open>
  \<open>Scanner_consume\<close>. The argument is a Python integer; \<open>PyLong_AsSize_t\<close>
  refuses one that is negative or does not fit a \<open>size_t\<close>.
\<close>

definition Scanner_consume :: "scanner \<Rightarrow> int \<Rightarrow> (scan_error + unit) \<times> scanner" where
  "Scanner_consume self n_obj =
     (if n_obj < 0 \<or> n_obj > SIZE_MAX then (Inl Overflow, self)
      else
        let n = nat n_obj
        in if n > buflen self then (Inl TooMany, self)
           else
             let s1 = self\<lparr>buflen := buflen self - n\<rparr>
             in (Inr (), s1\<lparr>buf := memmove_front (buf s1) n (buflen s1),
                               start_find := 0, literal_left := 0\<rparr>))"

subsection \<open>Clients of the scanner\<close>

text \<open>
  The calls a client makes on a scanner, and the scanner they leave. The
  allocation of a \<open>feed\<close> succeeds here: after a failed one the source would
  read past its storage.
\<close>

datatype scanner_op = Feed string "int option" | Get | Consume int

fun apply_op :: "scanner \<Rightarrow> scanner_op \<Rightarrow> scanner" where
  "apply_op s (Feed view len_obj) = snd (Scanner_feed s view len_obj True)"
| "apply_op s Get = snd (Scanner_get s)"
| "apply_op s (Consume n_obj) = snd (Scanner_consume s n_obj)"

text \<open>The scanner that a sequence of calls makes of a new one.\<close>

definition run :: "scanner_op list \<Rightarrow> scanner" where
  "run ops = foldl apply_op Scanner_new ops"

text \<open>A sequence of \<open>feed\<close> calls, each with its view and its optional length.\<close>

fun feeds :: "scanner \<Rightarrow> (string \<times> int option) list \<Rightarrow> scanner" where
  "feeds s [] = s"
| "feeds s ((view, len_obj) # fs) = feeds (snd (Scanner_feed s view len_obj True)) fs"

text \<open>
  The framing loop of a client: every byte of the input is fed on its own;
  after each byte \<open>get\<close> is called, and when it returns a view the view is
  recorded and \<open>consume\<close> is called with its length. The result is the list of
  views in order and the scanner at the end.
\<close>

fun pump :: "scanner \<Rightarrow> string \<Rightarrow> string list \<times> scanner" where
  "pump s [] = ([], s)"
| "pump s (c # cs) =
     (case Scanner_get (snd (Scanner_feed s [c] None True)) of
        (Inl e, s2) \<Rightarrow> pump s2 cs
      | (Inr n, s2) \<Rightarrow>
          (let r = pump (snd (Scanner_consume s2 (int n))) cs
           in (take n (buf s2) # fst r, snd r)))"

text \<open>Sequences of calls with no \<open>consume\<close> among them.\<close>

definition no_consume :: "scanner_op list \<Rightarrow> bool" where
  "no_consume ops = list_all (\<lambda>x. case x of Consume n \<Rightarrow> False | _ \<Rightarrow> True) ops"

subsection \<open>The spliced line of the specification\<close>

text \<open>
  The end of a response line as the specification frames it, to compare
  \<open>Scanner_get\<close> with. A literal is the header \<open>{N}\<close> CR LF and \<open>N\<close> opaque
  bytes that are part of the same line, and the line ends with the CR LF that
  no such header precedes. From the offset \<open>pos\<close>, the start of the buffer or
  the end of a payload, the next CR LF is looked for; the test for a header
  before it sees the bytes from \<open>pos\<close> on only, never those of the payload; a
  header of \<open>L\<close> bytes moves the offset past the CR LF and \<open>L\<close> bytes further.
  The result is the length of the line, counted from offset 0.
\<close>

function spliced_line_end :: "string \<Rightarrow> nat \<Rightarrow> nat \<Rightarrow> scan_error + nat" where
  "spliced_line_end b len pos =
     (case memmem_crlf (drop pos (take len b)) of
        None \<Rightarrow> Inl IncompleteLine
      | Some k \<Rightarrow>
          (case literal_header (drop pos b) k of
             Inl _ \<Rightarrow> Inr (pos + k + 2)
           | Inr None \<Rightarrow> Inl BadLiteralLength
           | Inr (Some L) \<Rightarrow>
               if len - (pos + k + 2) < L then Inl IncompleteLiteral
               else spliced_line_end b len (pos + k + 2 + L)))"
  by pat_completeness auto

termination spliced_line_end
proof (relation "measure (\<lambda>(b, len, pos). len - pos)")
  show "wf (measure (\<lambda>(b, len, pos). len - pos))" by simp
next
  fix b :: string and len pos k r L
  assume k: "memmem_crlf (drop pos (take len b)) = Some k"
    and "\<not> len - (pos + k + 2) < L"
  from memmem_crlf_bound [OF k] have "pos + k + 2 \<le> len" by simp
  then show "((b, len, pos + k + 2 + L), (b, len, pos)) \<in> measure (\<lambda>(b, len, pos). len - pos)"
    by simp
qed

declare spliced_line_end.simps [simp del]

text \<open>
  Whether the test of \<open>Scanner_get\<close> for a header, which looks back from a CR
  LF over the whole buffer, gives the answer of the test confined to the bytes
  from \<open>pos\<close> on, at every CR LF that the framing above meets from \<open>pos\<close>.
\<close>

function lookback_clear :: "string \<Rightarrow> nat \<Rightarrow> nat \<Rightarrow> bool" where
  "lookback_clear b len pos =
     (case memmem_crlf (drop pos (take len b)) of
        None \<Rightarrow> True
      | Some k \<Rightarrow>
          literal_header b (pos + k) = literal_header (drop pos b) k \<and>
          (case literal_header (drop pos b) k of
             Inr (Some L) \<Rightarrow>
               if len - (pos + k + 2) < L then True
               else lookback_clear b len (pos + k + 2 + L)
           | _ \<Rightarrow> True))"
  by pat_completeness auto

termination lookback_clear
proof (relation "measure (\<lambda>(b, len, pos). len - pos)")
  show "wf (measure (\<lambda>(b, len, pos). len - pos))" by simp
next
  fix b :: string and len pos k r L
  assume k: "memmem_crlf (drop pos (take len b)) = Some k"
    and "\<not> len - (pos + k + 2) < L"
  from memmem_crlf_bound [OF k] have "pos + k + 2 \<le> len" by simp
  then show "((b, len, pos + k + 2 + L), (b, len, pos)) \<in> measure (\<lambda>(b, len, pos). len - pos)"
    by simp
qed

declare lookback_clear.simps [simp del]

text \<open>
  The scanner is past the offset \<open>E\<close>: its cursor, moved over the bytes of the
  active literal, is at \<open>E\<close> or later, or it is on the byte before \<open>E\<close> with
  no literal active (where \<open>get\<close> leaves it when the buffer ends at \<open>E\<close>).
\<close>

definition past_payload :: "nat \<Rightarrow> scanner \<Rightarrow> bool" where
  "past_payload E u =
     (start_find u \<le> buflen u \<and>
      (E \<le> start_find u + literal_left u \<or>
       (literal_left u = 0 \<and> E \<le> start_find u + 1 \<and> start_find u < buflen u)))"

section \<open>The response parser (parser.c)\<close>

subsection \<open>Cursor, errors and the reading macros\<close>

text \<open>
  Every parsing function of the source takes the view and a cursor \<open>*cur\<close>
  into it, reads at or after the cursor only, moves the cursor forward, and
  returns a value or NULL with a Python exception set. Here the state is the
  input from the cursor on: a function maps it to its result (\<open>Inl\<close> the
  exception) and to the input from the cursor it leaves, also when it fails.
\<close>

text \<open>
  The exceptions a call can end with: \<open>ParseError\<close> with its message, the
  error of the ASCII decoder, and the \<open>SystemError\<close> that the interpreter
  raises when a function returns a value with an exception still set.
\<close>

datatype parse_error = ParseError string | UnicodeDecodeError | SystemError

type_synonym 'a parser = "string \<Rightarrow> (parse_error + 'a) \<times> string"

definition pbind :: "'a parser \<Rightarrow> ('a \<Rightarrow> 'b parser) \<Rightarrow> 'b parser" where
  "pbind p f i = (case p i of (Inl e, r) \<Rightarrow> (Inl e, r) | (Inr v, r) \<Rightarrow> f v r)"

definition preturn :: "'a \<Rightarrow> 'a parser" where
  "preturn v i = (Inr v, i)"

text \<open>\<open>PARSE_ERROR(msg)\<close> followed by the jump to \<open>err\<close>.\<close>

definition pfail :: "string \<Rightarrow> 'a parser" where
  "pfail msg i = (Inl (ParseError msg), i)"

definition TRUNCATED_PARSE :: parse_error where
  "TRUNCATED_PARSE = ParseError ''truncated parse''"

definition PEEKC :: "char parser" where
  "PEEKC i = (case i of [] \<Rightarrow> (Inl TRUNCATED_PARSE, i) | c # cs \<Rightarrow> (Inr c, i))"

definition GETC :: "char parser" where
  "GETC i = (case i of [] \<Rightarrow> (Inl TRUNCATED_PARSE, i) | c # cs \<Rightarrow> (Inr c, cs))"

text \<open>
  Python's \<open>repr\<close> of a string, as \<open>%R\<close> prints the byte or string that was
  expected: between single quotes, a backslash doubled, CR and LF as \<open>\r\<close> and
  \<open>\n\<close>. The strings the source passes hold no single quote and no other
  control byte.
\<close>

definition py_repr :: "string \<Rightarrow> string" where
  "py_repr str =
     [CHR 0x27] @
     concat (map (\<lambda>c. if c = BSLASH then [BSLASH, BSLASH]
                        else if c = CR then [BSLASH, CHR ''r'']
                        else if c = LF then [BSLASH, CHR ''n'']
                        else [c]) str) @
     [CHR 0x27]"

definition EXPECTC :: "char \<Rightarrow> unit parser" where
  "EXPECTC c i =
     (case i of
        [] \<Rightarrow> (Inl TRUNCATED_PARSE, i)
      | d # ds \<Rightarrow>
          if d \<noteq> c then (Inl (ParseError (''expected '' @ py_repr [c])), i) else (Inr (), ds))"

definition EXPECTS :: "string \<Rightarrow> unit parser" where
  "EXPECTS s i =
     (if length i < length s then (Inl TRUNCATED_PARSE, i)
      else if take (length s) i \<noteq> s then (Inl (ParseError (''expected '' @ py_repr s)), i)
      else (Inr (), drop (length s) i))"

subsection \<open>Character classes\<close>

definition is_CTL :: "char \<Rightarrow> bool" where
  "is_CTL c = ((1 \<le> byte c \<and> byte c \<le> 31) \<or> byte c = 127)"

definition atom_specials :: "char \<Rightarrow> bool" where
  "atom_specials c =
     (c \<in> {CHR ''('', CHR '')'', CHR ''{'', CHR '' '', CHR ''%'', CHR ''*'', DQUOTE, BSLASH, CHR '']''}
      \<or> is_CTL c)"

definition astring_reject :: "char \<Rightarrow> bool" where
  "astring_reject c =
     (c \<in> {CHR ''('', CHR '')'', CHR ''{'', CHR '' '', CHR ''%'', CHR ''*'', DQUOTE, BSLASH}
      \<or> is_CTL c)"

definition resp_text_code_reject :: "char \<Rightarrow> bool" where
  "resp_text_code_reject c = (c \<in> {CR, LF, CHR '']''})"

definition text_reject :: "char \<Rightarrow> bool" where
  "text_reject c = (c \<in> {CR, LF})"

definition tag_reject :: "char \<Rightarrow> bool" where
  "tag_reject c =
     (c \<in> {CHR ''('', CHR '')'', CHR ''{'', CHR '' '', CHR ''%'', CHR ''*'', DQUOTE, BSLASH, CHR ''+''}
      \<or> is_CTL c)"

text \<open>
  \<open>bufcspn\<close>: the longest run of bytes from \<open>0x01\<close> to \<open>0x7f\<close> that the table
  does not reject; the run may be empty, the input may not.
\<close>

definition bufcspn :: "(char \<Rightarrow> bool) \<Rightarrow> string parser" where
  "bufcspn reject i =
     (if i = [] then (Inl TRUNCATED_PARSE, i)
      else
        let span = takeWhile (\<lambda>c. 1 \<le> byte c \<and> byte c \<le> 127 \<and> \<not> reject c) i
        in (Inr span, drop (length span) i))"

definition parse_cspn :: "(char \<Rightarrow> bool) \<Rightarrow> string parser" where
  "parse_cspn reject =
     pbind (bufcspn reject) (\<lambda>str. if length str = 0 then pfail ''empty span'' else preturn str)"

definition parse_atom :: "string parser" where
  "parse_atom = parse_cspn atom_specials"

subsection \<open>Tokens\<close>

text \<open>The keywords, named as the constants of \<open>tokens.h\<close> that the parser uses.\<close>

datatype token =
  IMAP4_OK | IMAP4_NO | IMAP4_BAD | IMAP4_PREAUTH | IMAP4_BYE
  | IMAP4_CAPABILITY | IMAP4_ENABLED
  | IMAP4_FLAGS | IMAP4_LIST | IMAP4_LSUB | IMAP4_SEARCH | IMAP4_ESEARCH | IMAP4_STATUS
  | IMAP4_EXISTS | IMAP4_EXPUNGE | IMAP4_RECENT | IMAP4_FETCH
  | IMAP4_BODY | IMAP4_BODYSTRUCTURE | IMAP4_ENVELOPE | IMAP4_INTERNALDATE | IMAP4_MODSEQ
  | IMAP4_RFC822 | IMAP4_RFC822_HEADER | IMAP4_RFC822_TEXT | IMAP4_RFC822_SIZE
  | IMAP4_UID | IMAP4_X_GM_MSGID
  | IMAP4_MIN | IMAP4_MAX | IMAP4_ALL | IMAP4_COUNT
  | IMAP4_MESSAGES | IMAP4_UIDNEXT | IMAP4_UIDVALIDITY | IMAP4_UNSEEN
  | IMAP4_ALERT | IMAP4_PARSE | IMAP4_READ_ONLY | IMAP4_READ_WRITE | IMAP4_TRYCREATE
  | IMAP4_HIGHESTMODSEQ
  | IMAP4_BODYSECTIONS

definition toupper :: "char \<Rightarrow> char" where
  "toupper c = (if 97 \<le> byte c \<and> byte c \<le> 122 then char_of (byte c - 32) else c)"

definition token_table :: "(string \<times> token) list" where
  "token_table =
     [(''OK'', IMAP4_OK), (''NO'', IMAP4_NO), (''BAD'', IMAP4_BAD),
      (''PREAUTH'', IMAP4_PREAUTH), (''BYE'', IMAP4_BYE),
      (''CAPABILITY'', IMAP4_CAPABILITY), (''ENABLED'', IMAP4_ENABLED),
      (''FLAGS'', IMAP4_FLAGS), (''LIST'', IMAP4_LIST), (''LSUB'', IMAP4_LSUB),
      (''SEARCH'', IMAP4_SEARCH), (''ESEARCH'', IMAP4_ESEARCH), (''STATUS'', IMAP4_STATUS),
      (''EXISTS'', IMAP4_EXISTS), (''EXPUNGE'', IMAP4_EXPUNGE), (''RECENT'', IMAP4_RECENT),
      (''FETCH'', IMAP4_FETCH),
      (''BODY'', IMAP4_BODY), (''BODYSTRUCTURE'', IMAP4_BODYSTRUCTURE),
      (''ENVELOPE'', IMAP4_ENVELOPE), (''INTERNALDATE'', IMAP4_INTERNALDATE),
      (''MODSEQ'', IMAP4_MODSEQ), (''RFC822'', IMAP4_RFC822),
      (''RFC822.HEADER'', IMAP4_RFC822_HEADER), (''RFC822.TEXT'', IMAP4_RFC822_TEXT),
      (''RFC822.SIZE'', IMAP4_RFC822_SIZE), (''UID'', IMAP4_UID),
      (''X-GM-MSGID'', IMAP4_X_GM_MSGID),
      (''MIN'', IMAP4_MIN), (''MAX'', IMAP4_MAX), (''ALL'', IMAP4_ALL), (''COUNT'', IMAP4_COUNT),
      (''MESSAGES'', IMAP4_MESSAGES), (''UIDNEXT'', IMAP4_UIDNEXT),
      (''UIDVALIDITY'', IMAP4_UIDVALIDITY), (''UNSEEN'', IMAP4_UNSEEN),
      (''ALERT'', IMAP4_ALERT), (''PARSE'', IMAP4_PARSE), (''READ-ONLY'', IMAP4_READ_ONLY),
      (''READ-WRITE'', IMAP4_READ_WRITE), (''TRYCREATE'', IMAP4_TRYCREATE),
      (''HIGHESTMODSEQ'', IMAP4_HIGHESTMODSEQ)]"

text \<open>
  Modelled from the spec: \<open>imap4_token\<close> and the constants of \<open>tokens.h\<close> are
  not among the sources. Given a byte slice, the token table returns the
  identifier of the keyword the slice matches, without regard to case, and
  otherwise the sentinel for no match (0 in the source, \<open>None\<close> here). The
  synthetic \<open>BODYSECTIONS\<close> never appears in input.
\<close>

definition imap4_token :: "string \<Rightarrow> token option" where
  "imap4_token str = map_of token_table (map toupper str)"

definition is_token_char :: "char \<Rightarrow> bool" where
  "is_token_char c =
     ((65 \<le> byte c \<and> byte c \<le> 90) \<or> (97 \<le> byte c \<and> byte c \<le> 122) \<or>
      (48 \<le> byte c \<and> byte c \<le> 57) \<or> c = CHR ''.'' \<or> c = CHR ''-'')"

text \<open>
  \<open>parse_token\<close>: the cursor moves over the run of token characters only when
  the run is a keyword. An empty input is the error (the source returns -1).
\<close>

definition parse_token :: "token option parser" where
  "parse_token i =
     (if i = [] then (Inl TRUNCATED_PARSE, i)
      else
        let span = takeWhile is_token_char i;
            res = imap4_token span
        in if res \<noteq> None then (Inr res, drop (length span) i) else (Inr res, i))"

subsection \<open>Numbers\<close>

definition ULLONG_MAX :: nat where
  "ULLONG_MAX = 2 ^ 64 - 1"

text \<open>
  The loop of \<open>_parse_number\<close> (lines 1874 to 1884) from the accumulator
  \<open>res\<close>, an \<open>unsigned long long\<close> whose arithmetic wraps at \<open>2 ^ 64\<close>. The
  result is the value and the input from the first byte that is no digit.
\<close>

fun number_loop :: "nat \<Rightarrow> string \<Rightarrow> parse_error + nat \<times> string" where
  "number_loop res [] = Inr (res, [])"
| "number_loop res (c # cs) =
     (if isdigit c then
        (let digit = digit_val c
         in if res > ULLONG_MAX div 10 \<or> (res = ULLONG_MAX div 10 \<and> digit > ULLONG_MAX mod 10)
            then Inl (ParseError ''number overflowed'')
            else number_loop ((res * 10 mod 2 ^ 64 + digit) mod 2 ^ 64) cs)
      else Inr (res, c # cs))"

text \<open>
  \<open>_parse_number\<close>. On an error the cursor is where it was; with no digit at
  the cursor the error is "expected number".
\<close>

definition parse_number_raw :: "nat parser" where
  "parse_number_raw i =
     (if i = [] then (Inl TRUNCATED_PARSE, i)
      else
        (case number_loop 0 i of
           Inl e \<Rightarrow> (Inl e, i)
         | Inr (res, rest) \<Rightarrow>
             if length rest = length i then (Inl (ParseError ''expected number''), i)
             else (Inr res, rest)))"

text \<open>\<open>parse_number\<close>: the same, as a Python integer.\<close>

definition parse_number :: "nat parser" where
  "parse_number = parse_number_raw"

subsection \<open>Strings\<close>

text \<open>
  The loop over a quoted string (lines 2361 to 2380): \<open>acc\<close> is the bytes
  copied so far. It ends before the closing quote.
\<close>

fun quoted_loop :: "string \<Rightarrow> string \<Rightarrow> parse_error + string \<times> string" where
  "quoted_loop acc [] = Inl TRUNCATED_PARSE"
| "quoted_loop acc (c # cs) =
     (if c = DQUOTE then Inr (acc, c # cs)
      else if c = BSLASH then
        (case cs of
           [] \<Rightarrow> Inl TRUNCATED_PARSE
         | d # ds \<Rightarrow>
             if d \<noteq> DQUOTE \<and> d \<noteq> BSLASH then Inl (ParseError ''invalid quoted character'')
             else quoted_loop (acc @ [d]) ds)
      else quoted_loop (acc @ [c]) cs)"

definition PY_SSIZE_T_MAX :: nat where
  "PY_SSIZE_T_MAX = 2 ^ 63 - 1"

text \<open>
  \<open>parse_string\<close>: a quoted string or a literal. When the quoted loop fails
  the cursor stays after the opening quote.
\<close>

definition parse_string :: "string parser" where
  "parse_string =
     pbind GETC (\<lambda>c i.
       if c = DQUOTE then
         (case quoted_loop [] i of
            Inl e \<Rightarrow> (Inl e, i)
          | Inr (bytes, rest) \<Rightarrow> pbind (EXPECTC DQUOTE) (\<lambda>_. preturn bytes) rest)
       else if c = CHR ''{'' then
         pbind parse_number_raw (\<lambda>number.
           if number > PY_SSIZE_T_MAX then pfail ''literal length overflowed''
           else
             pbind (EXPECTS (CHR ''}'' # CRLF)) (\<lambda>_ j.
               if length j < number then (Inl TRUNCATED_PARSE, j)
               else (Inr (take number j), drop number j))) i
       else pfail ''invalid string'' i)"

text \<open>\<open>PyUnicode_FromEncodedObject(bytes, "ascii", "strict")\<close>.\<close>

definition ascii_decode :: "string \<Rightarrow> parse_error + string" where
  "ascii_decode bytes = (if list_all (\<lambda>c. byte c < 128) bytes then Inr bytes else Inl UnicodeDecodeError)"

definition parse_string_ascii :: "string parser" where
  "parse_string_ascii i =
     (case parse_string i of
        (Inl e, r) \<Rightarrow> (Inl e, r)
      | (Inr bytes, r) \<Rightarrow> (ascii_decode bytes, r))"

definition parse_astring :: "string parser" where
  "parse_astring =
     pbind PEEKC (\<lambda>c.
       if c = DQUOTE \<or> c = CHR ''{'' then parse_string
       else
         pbind (bufcspn astring_reject) (\<lambda>atom.
           if length atom = 0 then pfail ''empty astring'' else preturn atom))"

text \<open>\<open>parse_mailbox\<close>: an astring, with any spelling of INBOX made upper case.\<close>

definition parse_mailbox :: "string parser" where
  "parse_mailbox =
     pbind parse_astring (\<lambda>mailbox.
       if length mailbox = 5 \<and> map toupper mailbox = ''INBOX'' then preturn ''INBOX''
       else preturn mailbox)"

subsection \<open>Parsed values\<close>

text \<open>
  \<open>ResponseText(text, code, code_data)\<close>; an absent field is Python's \<open>None\<close>.
  The code is a token or, for a code the parser does not know, the atom as
  text; its data a number or raw text.
\<close>

datatype resp_code = CodeToken token | CodeAtom string

datatype resp_code_data = CodeNumber nat | CodeText string

datatype resp_text = ResponseText "string option" "resp_code option" "resp_code_data option"

datatype seq_item = SeqNumber nat | SeqRange nat nat

datatype esearch_value = EsNumber nat | EsSequence "seq_item list"

text \<open>
  The tag slot of an \<open>Esearch\<close>: \<open>None\<close>, a string, or the NULL pointer that
  \<open>parse_esearch_response\<close> stores when \<open>parse_string_ascii\<close> has failed (its
  result is used unchecked, lines 1413 and 1466; the Python error indicator is
  then still set when the response is returned).
\<close>

datatype esearch_tag = TagNone | Tag string | TagNULL

datatype esearch = Esearch esearch_tag bool "token \<rightharpoonup> esearch_value"

text \<open>\<open>List(attributes, delimiter, mailbox)\<close>; the delimiter is the byte read.\<close>

datatype list_data = ListData "string set" "char option" string

datatype status_data = StatusData string "token \<rightharpoonup> nat"

text \<open>
  The data of an untagged response. \<open>'f\<close> is the type of the items of a
  FETCH, which \<open>parse_msg_att\<close> returns.
\<close>

datatype 'f untagged_data =
  DataText resp_text
  | DataCapabilities "string set"
  | DataEsearch esearch
  | DataFlags "string set"
  | DataList list_data
  | DataSearch "nat set"
  | DataStatus status_data
  | DataNumber nat
  | DataFetch nat 'f

datatype 'f response =
  ContinueReq resp_text
  | TaggedResponse string token resp_text
  | UntaggedResponse token "'f untagged_data"

subsection \<open>Productions\<close>

lemma pbind_cong [fundef_cong]:
  "p i = p' i' \<Longrightarrow> (\<And>v r. p' i' = (Inr v, r) \<Longrightarrow> f v r = f' v r) \<Longrightarrow>
     pbind p f i = pbind p' f' i'"
  by (auto simp: pbind_def split: prod.splits sum.splits)

text \<open>How far the cursor moves: never backwards, and \<open>GETC\<close> by one byte.\<close>

lemma PEEKC_rest: "PEEKC i = (Inr c, r) \<Longrightarrow> r = i \<and> i \<noteq> []"
  by (auto simp: PEEKC_def split: list.splits)

lemma GETC_rest: "GETC i = (Inr c, r) \<Longrightarrow> length r < length i"
  by (auto simp: GETC_def split: list.splits)

lemma EXPECTC_rest: "EXPECTC c i = (Inr u, r) \<Longrightarrow> length r < length i"
  by (auto simp: EXPECTC_def split: list.splits if_splits)

lemma EXPECTS_rest: "EXPECTS s i = (Inr u, r) \<Longrightarrow> length r \<le> length i"
  by (auto simp: EXPECTS_def split: if_splits)

lemma pbind_rest:
  assumes "pbind p f i = (Inr v, r)"
  obtains w j where "p i = (Inr w, j)" "f w j = (Inr v, r)"
  using assms by (auto simp: pbind_def split: prod.splits sum.splits)

lemma bufcspn_rest: "bufcspn reject i = (Inr v, r) \<Longrightarrow> length r \<le> length i"
  by (auto simp: bufcspn_def Let_def split: if_splits)

lemma parse_cspn_rest: "parse_cspn reject i = (Inr v, r) \<Longrightarrow> length r \<le> length i"
  unfolding parse_cspn_def
  by (erule pbind_rest) (auto simp: pfail_def preturn_def dest: bufcspn_rest split: if_splits)

lemma parse_atom_rest: "parse_atom i = (Inr v, r) \<Longrightarrow> length r \<le> length i"
  unfolding parse_atom_def by (rule parse_cspn_rest)

lemma parse_token_rest: "parse_token i = (Inr v, r) \<Longrightarrow> length r \<le> length i"
  by (auto simp: parse_token_def Let_def split: if_splits)

lemma number_loop_rest: "number_loop res i = Inr (v, r) \<Longrightarrow> length r \<le> length i"
  by (induction res i rule: number_loop.induct) (auto simp: Let_def split: if_splits)

lemma parse_number_raw_rest: "parse_number_raw i = (Inr v, r) \<Longrightarrow> length r < length i"
  by (auto simp: parse_number_raw_def split: if_splits sum.splits prod.splits
        dest: number_loop_rest)

lemma parse_number_rest: "parse_number i = (Inr v, r) \<Longrightarrow> length r < length i"
  unfolding parse_number_def by (rule parse_number_raw_rest)

text \<open>
  \<open>parse_resp_text\<close>. The atom after the bracket is looked up in the token
  table; a code that takes no argument or one number is returned as its token,
  any other as the atom with the raw text after it.
\<close>

definition parse_resp_text :: "resp_text parser" where
  "parse_resp_text =
     pbind PEEKC (\<lambda>c.
       if c = CHR ''['' then
         pbind GETC (\<lambda>_.
         pbind (bufcspn atom_specials) (\<lambda>atom.
           if length atom = 0 then pfail ''empty atom''
           else
             pbind
               (let token = imap4_token atom
                in if token \<in> {Some IMAP4_ALERT, Some IMAP4_PARSE, Some IMAP4_READ_ONLY,
                                Some IMAP4_READ_WRITE, Some IMAP4_TRYCREATE} then
                     preturn (CodeToken (the token), None)
                   else if token \<in> {Some IMAP4_HIGHESTMODSEQ, Some IMAP4_UIDNEXT,
                                     Some IMAP4_UIDVALIDITY, Some IMAP4_UNSEEN} then
                     pbind (EXPECTC (CHR '' '')) (\<lambda>_.
                     pbind parse_number (\<lambda>n. preturn (CodeToken (the token), Some (CodeNumber n))))
                   else
                     pbind PEEKC (\<lambda>d.
                       if d = CHR '' '' then
                         pbind GETC (\<lambda>_.
                         pbind (parse_cspn resp_text_code_reject) (\<lambda>t.
                           preturn (CodeAtom atom, Some (CodeText t))))
                       else preturn (CodeAtom atom, None)))
               (\<lambda>(code, code_data).
                  pbind (EXPECTC (CHR '']'')) (\<lambda>_.
                  pbind PEEKC (\<lambda>d.
                    if d = CHR '' '' then
                      pbind GETC (\<lambda>_.
                      pbind (parse_cspn text_reject) (\<lambda>text.
                        preturn (ResponseText (Some text) (Some code) code_data)))
                    else preturn (ResponseText None (Some code) code_data))))))
       else
         pbind (parse_cspn text_reject) (\<lambda>text. preturn (ResponseText (Some text) None None)))"

text \<open>\<open>parse_sequence_set\<close>: numbers and ranges separated by commas, in order.\<close>

function sequence_set_loop :: "seq_item list \<Rightarrow> seq_item list parser" where
  "sequence_set_loop list i =
     pbind parse_number_raw (\<lambda>number1.
     pbind PEEKC (\<lambda>c.
     pbind
       (if c = CHR '':'' then
          pbind GETC (\<lambda>_.
          pbind parse_number_raw (\<lambda>number2. preturn (SeqRange number1 number2)))
        else preturn (SeqNumber number1))
       (\<lambda>item.
          pbind PEEKC (\<lambda>d j.
            if d \<noteq> CHR '','' then (Inr (list @ [item]), j)
            else pbind GETC (\<lambda>_ k. sequence_set_loop (list @ [item]) k) j)))) i"
  by pat_completeness auto

termination sequence_set_loop
proof (relation "measure (\<lambda>(list, i). length i)")
  show "wf (measure (\<lambda>(list, i). length i))" by simp
next
  fix list :: "seq_item list" and i :: string and number1 r1 c r2 item r3 d r4 u k
  assume "parse_number_raw i = (Inr number1, r1)" "PEEKC r1 = (Inr c, r2)"
    and item: "(if c = CHR '':'' then
          pbind GETC (\<lambda>_.
          pbind parse_number_raw (\<lambda>number2. preturn (SeqRange number1 number2)))
        else preturn (SeqNumber number1)) r2 = (Inr item, r3)"
    and "PEEKC r3 = (Inr d, r4)" "GETC r4 = (Inr u, k)"
  moreover from item have "length r3 \<le> length r2"
    by (auto simp: preturn_def split: if_splits elim!: pbind_rest
          dest!: GETC_rest parse_number_raw_rest)
  ultimately show "((list @ [item], k), (list, i)) \<in> measure (\<lambda>(list, i). length i)"
    by (auto dest!: PEEKC_rest GETC_rest parse_number_raw_rest)
qed

declare sequence_set_loop.simps [simp del]

definition parse_sequence_set :: "seq_item list parser" where
  "parse_sequence_set = sequence_set_loop []"

lemma sequence_set_loop_rest:
  "sequence_set_loop list i = (Inr v, r) \<Longrightarrow> length r < length i"
proof (induction list i arbitrary: v r rule: sequence_set_loop.induct)
  case (1 list i)
  from "1.prems" show ?case
    apply (subst (asm) sequence_set_loop.simps)
    apply (elim pbind_rest)
    subgoal premises p for number1 r1 c r2 item r3 d r4
    proof -
      from p(3) have l3: "length r3 \<le> length r2"
        by (auto simp: preturn_def split: if_splits elim!: pbind_rest
              dest!: GETC_rest parse_number_raw_rest)
      from p(1,2,4) l3 have l4: "length r4 < length i"
        by (auto dest!: PEEKC_rest parse_number_raw_rest)
      show ?thesis
      proof (cases "d \<noteq> CHR '',''")
        case True
        with p(5) l4 show ?thesis by simp
      next
        case False
        with p(5) obtain u k where g: "GETC r4 = (Inr u, k)"
          and rec: "sequence_set_loop (list @ [item]) k = (Inr v, r)"
          by (auto elim!: pbind_rest)
        from "1.IH" [OF p(1) p(2) p(3) p(4) False g rec] GETC_rest [OF g] l4
        show ?thesis by simp
      qed
    qed
    done
qed

lemma parse_sequence_set_rest: "parse_sequence_set i = (Inr v, r) \<Longrightarrow> length r < length i"
  unfolding parse_sequence_set_def by (rule sequence_set_loop_rest)

text \<open>
  The loop of \<open>parse_esearch_response\<close> over the returned items (lines 1421 to
  1461): \<open>uid\<close> and the dictionary \<open>returned\<close> are its state.
\<close>

function esearch_returns :: "bool \<Rightarrow> (token \<rightharpoonup> esearch_value) \<Rightarrow> (bool \<times> (token \<rightharpoonup> esearch_value)) parser" where
  "esearch_returns uid returned i =
     pbind PEEKC (\<lambda>c j.
       if c \<noteq> CHR '' '' then (Inr (uid, returned), j)
       else
         pbind GETC (\<lambda>_.
         pbind parse_token (\<lambda>token k.
           if token = Some IMAP4_UID then esearch_returns True returned k
           else if token \<in> {Some IMAP4_COUNT, Some IMAP4_MAX, Some IMAP4_MIN} then
             pbind (EXPECTC (CHR '' '')) (\<lambda>_.
             pbind parse_number (\<lambda>v l.
               esearch_returns uid (returned(the token \<mapsto> EsNumber v)) l)) k
           else if token = Some IMAP4_ALL then
             pbind (EXPECTC (CHR '' '')) (\<lambda>_.
             pbind parse_sequence_set (\<lambda>v l.
               esearch_returns uid (returned(the token \<mapsto> EsSequence v)) l)) k
           else pfail ''unknown ESEARCH return'' k)) j) i"
  by pat_completeness auto

termination esearch_returns
  by (relation "measure (\<lambda>(uid, returned, i). length i)")
    (auto dest!: PEEKC_rest GETC_rest parse_token_rest EXPECTC_rest parse_number_rest
       parse_sequence_set_rest)

declare esearch_returns.simps [simp del]

text \<open>
  \<open>parse_esearch_response\<close>, after the token ESEARCH. The result of
  \<open>parse_string_ascii\<close> for the tag is not checked: when it fails, parsing
  goes on from where it stopped, with NULL for the tag.
\<close>

definition parse_esearch_response :: "esearch parser" where
  "parse_esearch_response =
     pbind PEEKC (\<lambda>c.
       if c \<noteq> CHR '' '' then preturn (Esearch TagNone False Map.empty)
       else
         pbind GETC (\<lambda>_.
         pbind PEEKC (\<lambda>d.
         pbind
           (if d = CHR ''('' then
              pbind (EXPECTS ''(TAG '') (\<lambda>_ i.
                let (res, j) = parse_string_ascii i;
                    tag = (case res of Inl e \<Rightarrow> TagNULL | Inr str \<Rightarrow> Tag str)
                in pbind (EXPECTC (CHR '')'')) (\<lambda>_. preturn tag) j)
            else preturn TagNone)
           (\<lambda>tag.
              pbind (esearch_returns False Map.empty) (\<lambda>(uid, returned).
                preturn (Esearch tag uid returned))))))"

text \<open>The loop of the capability and enable data (lines 1976 to 1987).\<close>

function capability_loop :: "string set \<Rightarrow> string set parser" where
  "capability_loop data i =
     pbind PEEKC (\<lambda>c j.
       if c \<noteq> CHR '' '' then (Inr data, j)
       else
         pbind GETC (\<lambda>_.
         pbind parse_atom (\<lambda>cap k. capability_loop (insert cap data) k)) j) i"
  by pat_completeness auto

termination capability_loop
  by (relation "measure (\<lambda>(data, i). length i)")
    (auto dest!: PEEKC_rest GETC_rest parse_atom_rest)

declare capability_loop.simps [simp del]

function search_att_loop :: "nat set \<Rightarrow> nat set parser" where
  "search_att_loop data i =
     pbind PEEKC (\<lambda>c j.
       if c \<noteq> CHR '' '' then (Inr data, j)
       else
         pbind GETC (\<lambda>_.
         pbind parse_number (\<lambda>number k. search_att_loop (insert number data) k)) j) i"
  by pat_completeness auto

termination search_att_loop
  by (relation "measure (\<lambda>(data, i). length i)")
    (auto dest!: PEEKC_rest GETC_rest parse_number_rest)

declare search_att_loop.simps [simp del]

definition parse_search_att :: "nat set parser" where
  "parse_search_att = search_att_loop {}"

text \<open>
  A flag with its backslash (\<open>flag-extension\<close>): the atom after the backslash
  must not be empty, and the backslash stays in the string returned.
\<close>

definition flag_extension_atom :: "string parser" where
  "flag_extension_atom =
     pbind (bufcspn atom_specials) (\<lambda>atom.
       if length atom = 0 then pfail ''empty atom'' else preturn (BSLASH # atom))"

lemma flag_extension_atom_rest: "flag_extension_atom i = (Inr v, r) \<Longrightarrow> length r \<le> length i"
  unfolding flag_extension_atom_def
  by (erule pbind_rest) (auto simp: pfail_def preturn_def dest: bufcspn_rest split: if_splits)

function flag_list_loop :: "string set \<Rightarrow> string set parser" where
  "flag_list_loop flags i =
     pbind PEEKC (\<lambda>c.
     pbind (if c = BSLASH then pbind GETC (\<lambda>_. flag_extension_atom) else parse_atom) (\<lambda>flag.
     pbind PEEKC (\<lambda>d j.
       if d \<noteq> CHR '' '' then (Inr (insert flag flags), j)
       else pbind GETC (\<lambda>_ k. flag_list_loop (insert flag flags) k) j))) i"
  by pat_completeness auto

termination flag_list_loop
proof (relation "measure (\<lambda>(flags, i). length i)")
  show "wf (measure (\<lambda>(flags, i). length i))" by simp
next
  fix flags :: "string set" and i :: string and c r1 flag r2 d r3 u k
  assume "PEEKC i = (Inr c, r1)"
    and flag: "(if c = BSLASH then pbind GETC (\<lambda>_. flag_extension_atom) else parse_atom) r1
                 = (Inr flag, r2)"
    and "PEEKC r2 = (Inr d, r3)" "GETC r3 = (Inr u, k)"
  moreover from flag have "length r2 \<le> length r1"
    by (auto split: if_splits elim!: pbind_rest
          dest!: GETC_rest flag_extension_atom_rest parse_atom_rest)
  ultimately show "((insert flag flags, k), (flags, i)) \<in> measure (\<lambda>(flags, i). length i)"
    by (auto dest!: PEEKC_rest GETC_rest)
qed

declare flag_list_loop.simps [simp del]

definition parse_flag_list :: "string set parser" where
  "parse_flag_list =
     pbind (EXPECTC (CHR ''('')) (\<lambda>_.
     pbind PEEKC (\<lambda>c.
       if c = CHR '')'' then pbind GETC (\<lambda>_. preturn {})
       else pbind (flag_list_loop {}) (\<lambda>flags. pbind (EXPECTC (CHR '')'')) (\<lambda>_. preturn flags))))"

function mbx_list_flags_loop :: "string set \<Rightarrow> string set parser" where
  "mbx_list_flags_loop flags i =
     pbind (EXPECTC BSLASH) (\<lambda>_.
     pbind flag_extension_atom (\<lambda>flag.
     pbind PEEKC (\<lambda>d j.
       if d \<noteq> CHR '' '' then (Inr (insert flag flags), j)
       else pbind GETC (\<lambda>_ k. mbx_list_flags_loop (insert flag flags) k) j))) i"
  by pat_completeness auto

termination mbx_list_flags_loop
  by (relation "measure (\<lambda>(flags, i). length i)")
    (auto dest!: PEEKC_rest GETC_rest EXPECTC_rest flag_extension_atom_rest)

declare mbx_list_flags_loop.simps [simp del]

definition parse_mbx_list_flags :: "string set parser" where
  "parse_mbx_list_flags =
     pbind (EXPECTC (CHR ''('')) (\<lambda>_.
     pbind PEEKC (\<lambda>c.
       if c = CHR '')'' then pbind GETC (\<lambda>_. preturn {})
       else
         pbind (mbx_list_flags_loop {}) (\<lambda>flags.
           pbind (EXPECTC (CHR '')'')) (\<lambda>_. preturn flags))))"

definition parse_mailbox_list :: "list_data parser" where
  "parse_mailbox_list =
     pbind parse_mbx_list_flags (\<lambda>flags.
     pbind (EXPECTC (CHR '' '')) (\<lambda>_.
     pbind PEEKC (\<lambda>c.
     pbind
       (if c = DQUOTE then
          pbind GETC (\<lambda>_.
          pbind GETC (\<lambda>d.
          pbind (EXPECTS [DQUOTE, CHR '' '']) (\<lambda>_. preturn (Some d))))
        else pbind (EXPECTS ''NIL '') (\<lambda>_. preturn None))
       (\<lambda>delimiter.
          pbind parse_mailbox (\<lambda>mailbox. preturn (ListData flags delimiter mailbox))))))"

function status_att_loop :: "(token \<rightharpoonup> nat) \<Rightarrow> (token \<rightharpoonup> nat) parser" where
  "status_att_loop list i =
     pbind parse_token (\<lambda>token r.
       if token \<in> {Some IMAP4_MESSAGES, Some IMAP4_RECENT, Some IMAP4_UIDNEXT,
                     Some IMAP4_UIDVALIDITY, Some IMAP4_UNSEEN} then
         pbind (EXPECTC (CHR '' '')) (\<lambda>_.
         pbind parse_number (\<lambda>v.
         pbind PEEKC (\<lambda>d j.
           if d \<noteq> CHR '' '' then (Inr (list(the token \<mapsto> v)), j)
           else pbind GETC (\<lambda>_ k. status_att_loop (list(the token \<mapsto> v)) k) j))) r
       else pfail ''unknown status item'' r) i"
  by pat_completeness auto

termination status_att_loop
  by (relation "measure (\<lambda>(list, i). length i)")
    (auto dest!: PEEKC_rest GETC_rest EXPECTC_rest parse_token_rest parse_number_rest)

declare status_att_loop.simps [simp del]

definition parse_status_att :: "status_data parser" where
  "parse_status_att =
     pbind (EXPECTC (CHR '' '')) (\<lambda>_.
     pbind parse_mailbox (\<lambda>mailbox.
     pbind (EXPECTS '' ('') (\<lambda>_.
     pbind (status_att_loop Map.empty) (\<lambda>list.
     pbind (EXPECTC (CHR '')'')) (\<lambda>_. preturn (StatusData mailbox list))))))"

text \<open>
  \<open>parse_message_data\<close>. The parser of the items of a FETCH,
  \<open>parse_msg_att\<close>, is an argument: it rests on Python's date parsers and is
  not embedded. For a run that is no keyword the source builds the Python
  token from 0 and reaches the default branch of its switch; both end in an
  error, here the error of the default branch.
\<close>

definition parse_message_data :: "'f parser \<Rightarrow> (token \<times> 'f untagged_data) parser" where
  "parse_message_data parse_msg_att =
     pbind parse_number_raw (\<lambda>number.
     pbind (EXPECTC (CHR '' '')) (\<lambda>_.
     pbind parse_token (\<lambda>token.
       if token = Some IMAP4_FETCH then
         pbind (EXPECTC (CHR '' '')) (\<lambda>_.
         pbind parse_msg_att (\<lambda>msg_att. preturn (IMAP4_FETCH, DataFetch number msg_att)))
       else if token \<in> {Some IMAP4_EXISTS, Some IMAP4_EXPUNGE, Some IMAP4_RECENT} then
         preturn (the token, DataNumber number)
       else pfail ''unknown message data'')))"

definition parse_response_data :: "'f parser \<Rightarrow> 'f response parser" where
  "parse_response_data parse_msg_att =
     pbind (EXPECTS ''* '') (\<lambda>_.
     pbind PEEKC (\<lambda>c.
     pbind
       (if isdigit c then parse_message_data parse_msg_att
        else
          pbind parse_token (\<lambda>token.
            if token \<in> {Some IMAP4_OK, Some IMAP4_NO, Some IMAP4_BAD, Some IMAP4_PREAUTH,
                          Some IMAP4_BYE} then
              pbind (EXPECTC (CHR '' '')) (\<lambda>_.
              pbind parse_resp_text (\<lambda>data. preturn (the token, DataText data)))
            else if token \<in> {Some IMAP4_CAPABILITY, Some IMAP4_ENABLED} then
              pbind (capability_loop {}) (\<lambda>data. preturn (the token, DataCapabilities data))
            else if token = Some IMAP4_ESEARCH then
              pbind parse_esearch_response (\<lambda>data. preturn (IMAP4_ESEARCH, DataEsearch data))
            else if token = Some IMAP4_FLAGS then
              pbind (EXPECTC (CHR '' '')) (\<lambda>_.
              pbind parse_flag_list (\<lambda>data. preturn (IMAP4_FLAGS, DataFlags data)))
            else if token \<in> {Some IMAP4_LIST, Some IMAP4_LSUB} then
              pbind (EXPECTC (CHR '' '')) (\<lambda>_.
              pbind parse_mailbox_list (\<lambda>data. preturn (the token, DataList data)))
            else if token = Some IMAP4_SEARCH then
              pbind parse_search_att (\<lambda>data. preturn (IMAP4_SEARCH, DataSearch data))
            else if token = Some IMAP4_STATUS then
              pbind parse_status_att (\<lambda>data. preturn (IMAP4_STATUS, DataStatus data))
            else pfail ''unknown untagged response''))
       (\<lambda>(type, data).
          pbind (EXPECTS CRLF) (\<lambda>_. preturn (UntaggedResponse type data)))))"

definition parse_response_tagged :: "'f response parser" where
  "parse_response_tagged =
     pbind (parse_cspn tag_reject) (\<lambda>tag.
     pbind (EXPECTC (CHR '' '')) (\<lambda>_.
     pbind parse_token (\<lambda>token.
       if token \<in> {Some IMAP4_OK, Some IMAP4_NO, Some IMAP4_BAD} then
         pbind (EXPECTC (CHR '' '')) (\<lambda>_.
         pbind parse_resp_text (\<lambda>text.
         pbind (EXPECTS CRLF) (\<lambda>_. preturn (TaggedResponse tag (the token) text))))
       else pfail ''unknown tagged response'')))"

definition parse_continue_req :: "'f response parser" where
  "parse_continue_req =
     pbind (EXPECTS ''+ '') (\<lambda>_.
     pbind parse_resp_text (\<lambda>text.
     pbind (EXPECTS CRLF) (\<lambda>_. preturn (ContinueReq text))))"

definition parse_response :: "'f parser \<Rightarrow> 'f response parser" where
  "parse_response parse_msg_att =
     pbind PEEKC (\<lambda>c.
       if c = CHR ''*'' then parse_response_data parse_msg_att
       else if c = CHR ''+'' then parse_continue_req
       else parse_response_tagged)"

subsection \<open>Entry points\<close>

text \<open>
  A response that holds the NULL tag is returned with the exception of
  \<open>parse_string_ascii\<close> still set.
\<close>

definition error_pending :: "'f response \<Rightarrow> bool" where
  "error_pending res =
     (case res of
        UntaggedResponse type (DataEsearch (Esearch tag uid returned)) \<Rightarrow> tag = TagNULL
      | _ \<Rightarrow> False)"

text \<open>
  The three entry points have one shape (lines 133 to 218): an empty view is
  an error, then the production runs from cursor 0, and a cursor that is not at
  the end of the view afterwards is an error. A response returned with an
  exception set reaches the caller as a \<open>SystemError\<close>.
\<close>

definition parse_response_line :: "'f parser \<Rightarrow> string \<Rightarrow> parse_error + 'f response" where
  "parse_response_line parse_msg_att view =
     (if length view = 0 then Inl (ParseError ''nothing to parse'')
      else
        (case parse_response parse_msg_att view of
           (Inl e, rest) \<Rightarrow> Inl e
         | (Inr res, rest) \<Rightarrow>
             if rest \<noteq> [] then Inl (ParseError ''trailing characters after response'')
             else if error_pending res then Inl SystemError
             else Inr res))"

definition parse_imap_string :: "string \<Rightarrow> parse_error + string" where
  "parse_imap_string view =
     (if length view = 0 then Inl (ParseError ''nothing to parse'')
      else
        (case parse_string view of
           (Inl e, rest) \<Rightarrow> Inl e
         | (Inr res, rest) \<Rightarrow>
             if rest \<noteq> [] then Inl (ParseError ''trailing characters after string'')
             else Inr res))"

definition parse_imap_astring :: "string \<Rightarrow> parse_error + string" where
  "parse_imap_astring view =
     (if length view = 0 then Inl (ParseError ''nothing to parse'')
      else
        (case parse_astring view of
           (Inl e, rest) \<Rightarrow> Inl e
         | (Inr res, rest) \<Rightarrow>
             if rest \<noteq> [] then Inl (ParseError ''trailing characters after astring'')
             else Inr res))"

subsection \<open>Strings on the wire\<close>

text \<open>
  The two forms of an IMAP string with the bytes \<open>t\<close>: quoted, where a quote
  or a backslash is written after a backslash and every other byte as it is,
  and literal, where the digits \<open>ds\<close> give the number of bytes.
\<close>

definition quote_escape :: "string \<Rightarrow> string" where
  "quote_escape t = concat (map (\<lambda>c. if c = DQUOTE \<or> c = BSLASH then [BSLASH, c] else [c]) t)"

definition quoted :: "string \<Rightarrow> string" where
  "quoted t = DQUOTE # quote_escape t @ [DQUOTE]"

definition literal :: "string \<Rightarrow> string \<Rightarrow> string" where
  "literal ds t = CHR ''{'' # ds @ CHR ''}'' # CRLF @ t"

text \<open>
  A stand-in for the parser of FETCH items in examples with no FETCH: it is
  never reached there.
\<close>

definition msg_att_absent :: "unit parser" where
  "msg_att_absent = pfail ''msg-att''"

section \<open>Properties of the scanner\<close>

subsection \<open>Evaluation on concrete buffers\<close>

lemma digits_back_unfold:
  "digits_back b n =
     (if n = 0 then 0 else if isdigit (b ! (n - 1)) then digits_back b (n - 1) else n)"
  by (cases n) simp_all

lemmas scan_eval =
  Scanner_get.simps skip_literal_def find_crlf_def literal_header_def digits_back_unfold
  strtoul_def digits_value_def digit_val_def isdigit_def byte_def ULONG_MAX_def
  CR_def LF_def CRLF_def Let_def

lemmas feed_eval =
  Scanner_feed_def feed_len_def feed_result_def PyLong_AsSsize_t_def ssize_fits_def
  realloc_def memcpy_def Scanner_new_def Let_def

lemmas consume_eval =
  Scanner_consume_def SIZE_MAX_def memmove_front_def memcpy_def Let_def

subsection \<open>The search for CR LF\<close>

lemma memmem_crlf_at: "memmem_crlf xs = Some k \<Longrightarrow> xs ! k = CR \<and> xs ! Suc k = LF"
proof (induction xs arbitrary: k rule: memmem_crlf.induct)
  case (1 a b xs)
  then show ?case by (auto split: if_splits)
qed simp_all

lemma nth_window: "a + k < min (length xs) b \<Longrightarrow> drop a (take b xs) ! k = xs ! (a + k)"
  by simp

lemma find_crlf_at:
  assumes "find_crlf s = Some c"
  shows "buf s ! c = CR" and "buf s ! Suc c = LF" and "c + 2 \<le> length (buf s)"
proof -
  let ?xs = "drop (start_find s) (take (buflen s) (buf s))"
  from assms obtain k where k: "memmem_crlf ?xs = Some k" and c: "c = start_find s + k"
    by (auto simp: find_crlf_def)
  from memmem_crlf_bound [OF k] have b: "k + 2 \<le> min (length (buf s)) (buflen s) - start_find s"
    by simp
  from memmem_crlf_at [OF k] have "?xs ! k = CR" "?xs ! Suc k = LF" by simp_all
  moreover from b have "start_find s + k < min (length (buf s)) (buflen s)"
    and "start_find s + Suc k < min (length (buf s)) (buflen s)" by auto
  ultimately have "buf s ! (start_find s + k) = CR" "buf s ! (start_find s + Suc k) = LF"
    by (simp_all only: nth_window)
  with b c show "buf s ! c = CR" and "buf s ! Suc c = LF" and "c + 2 \<le> length (buf s)"
    by auto
qed

lemma crlf_at_take_drop:
  assumes "Suc (Suc c) \<le> length b" "b ! c = CR" "b ! Suc c = LF"
  shows "take 2 (drop c b) = CRLF"
  using assms by (simp add: CRLF_def take_Suc_conv_app_nth numeral_2_eq_2)

subsection \<open>The steps of \<open>get\<close>\<close>

lemma skip_literal_Inr_eq:
  "skip_literal s = Inr s1 \<Longrightarrow>
     s1 = s\<lparr>start_find := start_find s + literal_left s, literal_left := 0\<rparr> \<and>
     start_find s + literal_left s \<le> max (buflen s) (start_find s)"
  by (auto simp: skip_literal_def Let_def split: if_splits)

lemma skip_literal_Inl_eq:
  "skip_literal s = Inl s1 \<Longrightarrow>
     buflen s - start_find s < literal_left s \<and>
     s1 = s\<lparr>start_find := start_find s + (buflen s - start_find s),
            literal_left := literal_left s - (buflen s - start_find s)\<rparr>"
  by (auto simp: skip_literal_def Let_def split: if_splits)

lemma skip_literal_Inr_bound:
  "skip_literal s = Inr s1 \<Longrightarrow> start_find s \<le> buflen s \<Longrightarrow>
     start_find s1 \<le> buflen s \<and> (0 < literal_left s \<longrightarrow> start_find s < buflen s)"
  by (auto simp: skip_literal_def Let_def split: if_splits)

text \<open>The five ways one round of the loop of \<open>Scanner_get\<close> goes.\<close>

lemma Scanner_get_cases:
  assumes "Scanner_get s = r"
  obtains
    (lit) s1 where "skip_literal s = Inl s1" "r = (Inl IncompleteLiteral, s1)"
  | (line) s1 where "skip_literal s = Inr s1" "find_crlf s1 = None"
      "r = (Inl IncompleteLine, if buflen s1 > 0 then s1\<lparr>start_find := buflen s1 - 1\<rparr> else s1)"
  | (fin) s1 crlf where "skip_literal s = Inr s1" "find_crlf s1 = Some crlf"
      "literal_header (buf s1) crlf = Inl ()" "r = (Inr (crlf + 2), s1\<lparr>start_find := crlf\<rparr>)"
  | (bad) s1 crlf where "skip_literal s = Inr s1" "find_crlf s1 = Some crlf"
      "literal_header (buf s1) crlf = Inr None" "r = (Inl BadLiteralLength, s1)"
  | (splice) s1 crlf len where "skip_literal s = Inr s1" "find_crlf s1 = Some crlf"
      "literal_header (buf s1) crlf = Inr (Some len)"
      "r = Scanner_get (s1\<lparr>literal_left := len, start_find := crlf + 2\<rparr>)"
  using assms
  by (subst (asm) Scanner_get.simps) (auto split: sum.splits option.splits)

text \<open>
  A view returned by \<open>get\<close> ends with a CR LF that lies after the cursor and
  after the bytes of the active literal.
\<close>

lemma Scanner_get_success:
  "Scanner_get s = (Inr n, s') \<Longrightarrow>
     start_find s + literal_left s + 2 \<le> n \<and> n \<le> buflen s \<and> n \<le> length (buf s) \<and>
     buf s ! (n - 2) = CR \<and> buf s ! (n - 1) = LF \<and>
     s' = s\<lparr>start_find := n - 2, literal_left := 0\<rparr>"
proof (induction s rule: Scanner_get.induct)
  case (1 self)
  from "1.prems" show ?case
  proof (cases rule: Scanner_get_cases)
    case (fin s1 crlf)
    with skip_literal_Inr_eq [OF fin(1)] find_crlf_bound [OF fin(2)] find_crlf_at [OF fin(2)]
    show ?thesis by auto
  next
    case (splice s1 crlf len)
    from "1.IH" [OF splice(1) splice(2) splice(3) refl splice(4) [symmetric]]
      skip_literal_Inr_eq [OF splice(1)] find_crlf_bound [OF splice(2)]
    show ?thesis by auto
  qed simp_all
qed

subsection \<open>The cursor between failing calls\<close>

lemma Scanner_feed_fields:
  "start_find (snd (Scanner_feed s v l ok)) = start_find s"
  "literal_left (snd (Scanner_feed s v l ok)) = literal_left s"
  "buflen s \<le> buflen (snd (Scanner_feed s v l ok))"
  by (simp_all add: Scanner_feed_def Let_def)

lemma feeds_fields:
  "start_find (feeds s fs) = start_find s \<and> literal_left (feeds s fs) = literal_left s \<and>
   buflen s \<le> buflen (feeds s fs)"
proof (induction fs arbitrary: s)
  case Nil
  show ?case by simp
next
  case (Cons f fs)
  obtain v l where f: "f = (v, l)" by (cases f)
  from Cons [of "snd (Scanner_feed s v l True)"] Scanner_feed_fields [of s v l True]
  show ?case unfolding f by auto
qed

text \<open>
  What a failing \<open>get\<close> leaves behind: the cursor is inside the buffer, and it
  is before the end of the buffer unless a literal is still active.
\<close>

lemma Scanner_get_failure_state:
  "Scanner_get s = (Inl e, s') \<Longrightarrow> start_find s \<le> buflen s \<Longrightarrow>
     buflen s' = buflen s \<and> start_find s' \<le> buflen s' \<and>
     (literal_left s' = 0 \<and> 0 < buflen s' \<longrightarrow> start_find s' < buflen s')"
proof (induction s rule: Scanner_get.induct)
  case (1 self)
  from "1.prems"(1) show ?case
  proof (cases rule: Scanner_get_cases)
    case (lit s1)
    with skip_literal_Inl_eq [OF lit(1)] "1.prems"(2) show ?thesis by auto
  next
    case (line s1)
    with skip_literal_Inr_eq [OF line(1)] skip_literal_Inr_bound [OF line(1) "1.prems"(2)]
    show ?thesis by (auto split: if_splits)
  next
    case (fin s1 crlf)
    then show ?thesis by simp
  next
    case (bad s1 crlf)
    with skip_literal_Inr_eq [OF bad(1)] find_crlf_bound [OF bad(2)] show ?thesis by auto
  next
    case (splice s1 crlf len)
    from find_crlf_bound [OF splice(2)] skip_literal_Inr_eq [OF splice(1)]
    have "start_find (s1\<lparr>literal_left := len, start_find := crlf + 2\<rparr>)
            \<le> buflen (s1\<lparr>literal_left := len, start_find := crlf + 2\<rparr>)"
      and "buflen s1 = buflen self" by auto
    with "1.IH" [OF splice(1) splice(2) splice(3) refl splice(4) [symmetric]]
    show ?thesis by auto
  qed
qed

text \<open>A failing \<open>get\<close> does not end before a position \<open>lo\<close> it started after.\<close>

lemma Scanner_get_failure_cursor:
  "Scanner_get s = (Inl e, s') \<Longrightarrow> lo \<le> start_find s \<Longrightarrow> start_find s \<le> buflen s \<Longrightarrow>
     (literal_left s = 0 \<and> 0 < buflen s \<longrightarrow> lo < buflen s) \<Longrightarrow> lo \<le> start_find s'"
proof (induction s rule: Scanner_get.induct)
  case (1 self)
  from "1.prems"(1) show ?case
  proof (cases rule: Scanner_get_cases)
    case (lit s1)
    with skip_literal_Inl_eq [OF lit(1)] "1.prems" show ?thesis by auto
  next
    case (line s1)
    with skip_literal_Inr_eq [OF line(1)] skip_literal_Inr_bound [OF line(1) "1.prems"(3)] "1.prems"
    show ?thesis by (auto split: if_splits)
  next
    case (fin s1 crlf)
    then show ?thesis by simp
  next
    case (bad s1 crlf)
    with skip_literal_Inr_eq [OF bad(1)] "1.prems" show ?thesis by auto
  next
    case (splice s1 crlf len)
    let ?t = "s1\<lparr>literal_left := len, start_find := crlf + 2\<rparr>"
    from find_crlf_bound [OF splice(2)] skip_literal_Inr_eq [OF splice(1)] "1.prems"
    have "lo \<le> start_find ?t" "start_find ?t \<le> buflen ?t"
      "literal_left ?t = 0 \<and> 0 < buflen ?t \<longrightarrow> lo < buflen ?t"
      by auto
    with "1.IH" [OF splice(1) splice(2) splice(3) refl splice(4) [symmetric]]
    show ?thesis by blast
  qed
qed

text \<open>
  Every scanner a client can reach has its storage as large as its capacity,
  its logical length within the capacity and its cursor within the logical
  length: \<open>get\<close> reads inside the storage.
\<close>

definition scanner_inv :: "scanner \<Rightarrow> bool" where
  "scanner_inv s =
     (length (buf s) = bufcap s \<and> buflen s \<le> bufcap s \<and> start_find s \<le> buflen s)"

lemma Scanner_get_frame:
  "buf (snd (Scanner_get s)) = buf s \<and> buflen (snd (Scanner_get s)) = buflen s \<and>
   bufcap (snd (Scanner_get s)) = bufcap s"
proof (induction s rule: Scanner_get.induct)
  case (1 self)
  obtain r where r: "Scanner_get self = r" by simp
  then show ?case
  proof (cases rule: Scanner_get_cases)
    case (lit s1)
    with r skip_literal_Inl_eq [OF lit(1)] show ?thesis by auto
  next
    case (line s1)
    with r skip_literal_Inr_eq [OF line(1)] show ?thesis by auto
  next
    case (fin s1 crlf)
    with r skip_literal_Inr_eq [OF fin(1)] show ?thesis by auto
  next
    case (bad s1 crlf)
    with r skip_literal_Inr_eq [OF bad(1)] show ?thesis by auto
  next
    case (splice s1 crlf len)
    from "1.IH" [OF splice(1) splice(2) splice(3) refl] splice(4) r
      skip_literal_Inr_eq [OF splice(1)]
    show ?thesis by auto
  qed
qed

lemma Scanner_get_inv: "scanner_inv s \<Longrightarrow> scanner_inv (snd (Scanner_get s))"
proof -
  assume inv: "scanner_inv s"
  obtain res s' where g: "Scanner_get s = (res, s')" by (cases "Scanner_get s")
  from Scanner_get_frame [of s] g
  have fr: "buf s' = buf s" "buflen s' = buflen s" "bufcap s' = bufcap s" by simp_all
  have "start_find s' \<le> buflen s'"
  proof (cases res)
    case (Inl e)
    with g inv Scanner_get_failure_state [of s e s'] show ?thesis
      by (simp add: scanner_inv_def)
  next
    case (Inr n)
    with g Scanner_get_success [of s n s'] show ?thesis by auto
  qed
  with inv fr g show ?thesis by (simp add: scanner_inv_def)
qed

lemma Scanner_feed_inv: "scanner_inv s \<Longrightarrow> scanner_inv (snd (Scanner_feed s v l True))"
  by (auto simp: scanner_inv_def Scanner_feed_def Let_def realloc_def memcpy_def)

lemma Scanner_consume_inv: "scanner_inv s \<Longrightarrow> scanner_inv (snd (Scanner_consume s n))"
  by (auto simp: scanner_inv_def Scanner_consume_def Let_def memmove_front_def memcpy_def)

lemma run_inv: "scanner_inv (run ops)"
proof (induction ops rule: rev_induct)
  case Nil
  show ?case by (simp add: run_def scanner_inv_def Scanner_new_def)
next
  case (snoc x ops)
  then show ?case
    by (cases x) (simp_all add: run_def Scanner_feed_inv Scanner_get_inv Scanner_consume_inv)
qed

lemma get_cursor_monotone_from:
  assumes "start_find s \<le> buflen s"
    and "Scanner_get s = (Inl e1, s1)"
    and "Scanner_get (feeds s1 fs) = (Inl e2, s2)"
  shows "start_find s1 \<le> start_find s2"
proof -
  note j = Scanner_get_failure_state [OF assms(2) assms(1)]
  note f = feeds_fields [of s1 fs]
  show ?thesis
  proof (rule Scanner_get_failure_cursor [OF assms(3)])
    show "start_find s1 \<le> start_find (feeds s1 fs)" using f by simp
    show "start_find (feeds s1 fs) \<le> buflen (feeds s1 fs)" using f j by simp
    show "literal_left (feeds s1 fs) = 0 \<and> 0 < buflen (feeds s1 fs)
            \<longrightarrow> start_find s1 < buflen (feeds s1 fs)"
      using f j by (cases "buflen s1 = 0") auto
  qed
qed

text \<open>
  Claim C3. Take the scanner that any sequence of calls makes of a new one.
  When \<open>get\<close> fails on it, any number of \<open>feed\<close> calls follow (no \<open>consume\<close>),
  and \<open>get\<close> fails again, the scan cursor after the second call is at least the
  scan cursor after the first. The first call may end with an active literal
  that the second call skips in full before its search for CR LF fails.
\<close>

theorem get_cursor_monotone:
  assumes "Scanner_get (run ops) = (Inl e1, s1)"
    and "Scanner_get (feeds s1 fs) = (Inl e2, s2)"
  shows "start_find s1 \<le> start_find s2"
proof -
  from run_inv [of ops] have "start_find (run ops) \<le> buflen (run ops)"
    by (simp add: scanner_inv_def)
  from this assms show ?thesis by (rule get_cursor_monotone_from)
qed

text \<open>
  The theorem at a scanner fed the header of a one byte literal: the first
  call ends with the literal active, one byte is fed, and the second call skips
  the literal and finds no CR LF.
\<close>

theorem get_cursor_monotone_witness:
  "Scanner_get (run [Feed (''{1}'' @ CRLF) None])
     = (Inl IncompleteLiteral,
        \<lparr>buf = ''{1}'' @ CRLF, buflen = 5, bufcap = 5, start_find = 5, literal_left = 1\<rparr>) \<and>
   Scanner_get
     (feeds \<lparr>buf = ''{1}'' @ CRLF, buflen = 5, bufcap = 5, start_find = 5, literal_left = 1\<rparr>
        [(''x'', None)])
     = (Inl IncompleteLine,
        \<lparr>buf = ''{1}'' @ CRLF @ ''x'', buflen = 6, bufcap = 6, start_find = 5, literal_left = 0\<rparr>) \<and>
   start_find \<lparr>buf = ''{1}'' @ CRLF, buflen = 5, bufcap = 5, start_find = 5, literal_left = 1\<rparr>
     \<le> start_find
          \<lparr>buf = ''{1}'' @ CRLF @ ''x'', buflen = 6, bufcap = 6, start_find = 5, literal_left = 0\<rparr>"
proof -
  let ?s1 = "\<lparr>buf = ''{1}'' @ CRLF, buflen = 5, bufcap = 5, start_find = 5, literal_left = 1\<rparr>"
  let ?s2 = "\<lparr>buf = ''{1}'' @ CRLF @ ''x'', buflen = 6, bufcap = 6, start_find = 5, literal_left = 0\<rparr>"
  have b: "Scanner_get (run [Feed (''{1}'' @ CRLF) None]) = (Inl IncompleteLiteral, ?s1)"
    by (simp add: run_def scan_eval feed_eval)
  have c: "Scanner_get (feeds ?s1 [(''x'', None)]) = (Inl IncompleteLine, ?s2)"
    by (simp add: scan_eval feed_eval)
  from get_cursor_monotone [OF b c] b c show ?thesis by blast
qed

subsection \<open>The literal splice\<close>

lemma isdigit_brace [simp]: "\<not> isdigit (CHR ''{'')" "\<not> isdigit (CHR ''}'')"
  by (simp_all add: isdigit_def byte_def)

lemma digits_back_run:
  assumes "p \<le> q" "\<forall>i. p \<le> i \<and> i < q \<longrightarrow> isdigit (b ! i)" "p = 0 \<or> \<not> isdigit (b ! (p - 1))"
  shows "digits_back b q = p"
  using assms
proof (induction q)
  case 0
  then show ?case by simp
next
  case (Suc q)
  show ?case
  proof (cases "p = Suc q")
    case True
    with Suc.prems show ?thesis by auto
  next
    case False
    with Suc.prems have "p \<le> q" "isdigit (b ! q)" by auto
    with Suc show ?thesis by auto
  qed
qed

lemma takeWhile_run:
  assumes "n < length xs" "\<forall>i < n. P (xs ! i)" "\<not> P (xs ! n)"
  shows "takeWhile P xs = take n xs"
proof -
  have front: "\<And>x. x \<in> set (take n xs) \<Longrightarrow> P x"
    using assms by (auto simp: in_set_conv_nth)
  from assms(1) have "takeWhile P xs = takeWhile P (take n xs @ xs ! n # drop (Suc n) xs)"
    by (simp only: id_take_nth_drop [symmetric])
  also from front have "\<dots> = take n xs @ takeWhile P (xs ! n # drop (Suc n) xs)"
    by (rule takeWhile_append2)
  also from assms(3) have "\<dots> = take n xs"
    by simp
  finally show ?thesis .
qed

lemma literal_header_empty_braces:
  assumes "2 \<le> c" "b ! (c - 1) = CHR ''}''" "b ! (c - 2) = CHR ''{''"
  shows "literal_header b c = Inl ()"
proof -
  from assms(1) obtain q where q: "c - 1 = Suc q" "c - 2 = q"
    by (cases "c - 1") auto
  with assms(3) have "digits_back b (c - 1) = c - 1" by simp
  then show ?thesis by (simp add: literal_header_def)
qed

lemma literal_header_digits:
  assumes "0 < p" "p < c - 1" "c \<le> length b"
    and "b ! (p - 1) = CHR ''{''"
    and "list_all isdigit (take (c - 1 - p) (drop p b))"
    and "b ! (c - 1) = CHR ''}''"
  shows "literal_header b c =
           Inr (let v = digits_value (take (c - 1 - p) (drop p b))
                in if v > ULONG_MAX then None else Some v)"
proof -
  from assms(1,2,3,5) have dg: "\<forall>i < c - 1 - p. isdigit (b ! (p + i))"
    by (simp add: list_all_length)
  have "\<forall>i. p \<le> i \<and> i < c - 1 \<longrightarrow> isdigit (b ! i)"
  proof (intro allI impI)
    fix i assume "p \<le> i \<and> i < c - 1"
    then have "i - p < c - 1 - p" "p + (i - p) = i" by auto
    with dg show "isdigit (b ! i)" by metis
  qed
  then have bk: "digits_back b (c - 1) = p"
    using assms by (intro digits_back_run) auto
  have "takeWhile isdigit (drop p b) = take (c - 1 - p) (drop p b)"
  proof (rule takeWhile_run)
    show "c - 1 - p < length (drop p b)" using assms by simp
    show "\<forall>i<c - 1 - p. isdigit (drop p b ! i)" using assms dg by simp
    show "\<not> isdigit (drop p b ! (c - 1 - p))" using assms by simp
  qed
  with bk assms show ?thesis
    by (simp add: literal_header_def strtoul_def)
qed

text \<open>
  Claim C9. Let the first CR LF that \<open>get\<close> finds from the scan cursor (after
  the bytes of an active literal, if any) be at offset \<open>c\<close>, with the two bytes
  \<open>{}\<close> right before it. Then \<open>get\<close> returns the view of the \<open>c + 2\<close> bytes
  that end with this CR LF, the cursor is left on the CR, and the literal
  counter is zero: an empty digit span is no literal.
\<close>

theorem get_empty_braces_not_literal:
  assumes "skip_literal s = Inr s1" and "find_crlf s1 = Some c" and "2 \<le> c"
    and "buf s ! (c - 1) = CHR ''}''" and "buf s ! (c - 2) = CHR ''{''"
  shows "Scanner_get s = (Inr (c + 2), s1\<lparr>start_find := c\<rparr>) \<and> literal_left s1 = 0 \<and>
         take 2 (drop c (buf s)) = CRLF"
proof -
  note e = skip_literal_Inr_eq [OF assms(1)]
  from e have b: "buf s1 = buf s" by (cases s) auto
  from assms(3-5) have "literal_header (buf s1) c = Inl ()"
    unfolding b by (rule literal_header_empty_braces)
  with assms(1,2) have "Scanner_get s = (Inr (c + 2), s1\<lparr>start_find := c\<rparr>)"
    by (subst Scanner_get.simps) simp
  moreover from e have "literal_left s1 = 0" by (cases s) auto
  moreover from find_crlf_at [OF assms(2)] b have "take 2 (drop c (buf s)) = CRLF"
    by (simp add: crlf_at_take_drop)
  ultimately show ?thesis by simp
qed

theorem get_empty_braces_not_literal_witness:
  "Scanner_get \<lparr>buf = ''a {}'' @ CRLF @ ''b'', buflen = 7, bufcap = 7, start_find = 0, literal_left = 0\<rparr>
     = (Inr 6, \<lparr>buf = ''a {}'' @ CRLF @ ''b'', buflen = 7, bufcap = 7, start_find = 4, literal_left = 0\<rparr>)"
proof -
  let ?s = "\<lparr>buf = ''a {}'' @ CRLF @ ''b'', buflen = 7, bufcap = 7, start_find = 0, literal_left = 0\<rparr>"
  have a: "skip_literal ?s = Inr ?s" by (simp add: skip_literal_def)
  have b: "find_crlf ?s = Some 4" by (simp add: find_crlf_def CR_def LF_def CRLF_def)
  have c: "(2::nat) \<le> 4" by simp
  have d: "buf ?s ! (4 - 1) = CHR ''}''" by simp
  have e: "buf ?s ! (4 - 2) = CHR ''{''" by simp
  from get_empty_braces_not_literal [OF a b c d e] show ?thesis by simp
qed

lemma find_crlf_memmem:
  "find_crlf s = (case memmem_crlf (drop (start_find s) (take (buflen s) (buf s))) of
                    None \<Rightarrow> None | Some k \<Rightarrow> Some (start_find s + k))"
  by (simp add: find_crlf_def split: option.splits)

lemma Scanner_get_reference:
  "lookback_clear (buf u) (buflen u) (start_find u + literal_left u) \<Longrightarrow>
   fst (Scanner_get u) =
     (if buflen u - start_find u < literal_left u then Inl IncompleteLiteral
      else spliced_line_end (buf u) (buflen u) (start_find u + literal_left u))"
proof (induction u rule: Scanner_get.induct)
  case (1 self)
  let ?pos = "start_find self + literal_left self"
  obtain r where r: "Scanner_get self = r" by simp
  then show ?case
  proof (cases rule: Scanner_get_cases)
    case (lit s1)
    with r skip_literal_Inl_eq [OF lit(1)] show ?thesis by simp
  next
    case (line s1)
    note e = skip_literal_Inr_eq [OF line(1)]
    from line(1) have nl: "\<not> buflen self - start_find self < literal_left self"
      by (auto simp: skip_literal_def Let_def split: if_splits)
    from line(2) e have "memmem_crlf (drop ?pos (take (buflen self) (buf self))) = None"
      by (cases self) (auto simp: find_crlf_memmem split: option.splits)
    then have "spliced_line_end (buf self) (buflen self) ?pos = Inl IncompleteLine"
      by (subst spliced_line_end.simps) simp
    with r line(3) nl show ?thesis by simp
  next
    case (fin s1 crlf)
    note e = skip_literal_Inr_eq [OF fin(1)]
    from fin(1) have nl: "\<not> buflen self - start_find self < literal_left self"
      by (auto simp: skip_literal_def Let_def split: if_splits)
    from fin(2) e obtain k where k: "memmem_crlf (drop ?pos (take (buflen self) (buf self))) = Some k"
      and c: "crlf = ?pos + k"
      by (cases self) (auto simp: find_crlf_memmem split: option.splits)
    from "1.prems" k have same: "literal_header (buf self) (?pos + k) = literal_header (drop ?pos (buf self)) k"
      by (subst (asm) lookback_clear.simps) simp
    from e have b: "buf s1 = buf self" by (cases self) auto
    from fin(3) same b c have "literal_header (drop ?pos (buf self)) k = Inl ()" by simp
    with k have "spliced_line_end (buf self) (buflen self) ?pos = Inr (?pos + k + 2)"
      by (subst spliced_line_end.simps) simp
    with r fin(4) nl c show ?thesis by simp
  next
    case (bad s1 crlf)
    note e = skip_literal_Inr_eq [OF bad(1)]
    from bad(1) have nl: "\<not> buflen self - start_find self < literal_left self"
      by (auto simp: skip_literal_def Let_def split: if_splits)
    from bad(2) e obtain k where k: "memmem_crlf (drop ?pos (take (buflen self) (buf self))) = Some k"
      and c: "crlf = ?pos + k"
      by (cases self) (auto simp: find_crlf_memmem split: option.splits)
    from "1.prems" k have same: "literal_header (buf self) (?pos + k) = literal_header (drop ?pos (buf self)) k"
      by (subst (asm) lookback_clear.simps) simp
    from e have b: "buf s1 = buf self" by (cases self) auto
    from bad(3) same b c have "literal_header (drop ?pos (buf self)) k = Inr None" by simp
    with k have "spliced_line_end (buf self) (buflen self) ?pos = Inl BadLiteralLength"
      by (subst spliced_line_end.simps) simp
    with r bad(4) nl show ?thesis by simp
  next
    case (splice s1 crlf len)
    note e = skip_literal_Inr_eq [OF splice(1)]
    from splice(1) have nl: "\<not> buflen self - start_find self < literal_left self"
      by (auto simp: skip_literal_def Let_def split: if_splits)
    from splice(2) e obtain k where k: "memmem_crlf (drop ?pos (take (buflen self) (buf self))) = Some k"
      and c: "crlf = ?pos + k"
      by (cases self) (auto simp: find_crlf_memmem split: option.splits)
    from "1.prems" k have same: "literal_header (buf self) (?pos + k) = literal_header (drop ?pos (buf self)) k"
      by (subst (asm) lookback_clear.simps) simp
    from e have b: "buf s1 = buf self" "buflen s1 = buflen self" by (cases self; auto)+
    from splice(3) same b c have hdr: "literal_header (drop ?pos (buf self)) k = Inr (Some len)"
      by simp
    let ?t = "s1\<lparr>literal_left := len, start_find := crlf + 2\<rparr>"
    have ref: "spliced_line_end (buf self) (buflen self) ?pos =
                 (if buflen self - (?pos + k + 2) < len then Inl IncompleteLiteral
                  else spliced_line_end (buf self) (buflen self) (?pos + k + 2 + len))"
      using k hdr by (subst spliced_line_end.simps) simp
    have clear: "lookback_clear (buf ?t) (buflen ?t) (start_find ?t + literal_left ?t)"
    proof (cases "buflen self - (?pos + k + 2) < len")
      case True
      from memmem_crlf_bound [OF k] have "?pos + k + 2 \<le> buflen self" by simp
      with True have "buflen self \<le> ?pos + k + 2 + len" by simp
      then have "memmem_crlf (drop (?pos + k + 2 + len) (take (buflen self) (buf self))) = None"
        by simp
      then have "lookback_clear (buf self) (buflen self) (?pos + k + 2 + len)"
        by (subst lookback_clear.simps) simp
      with b c show ?thesis by (simp add: add.assoc)
    next
      case False
      with "1.prems" k hdr have "lookback_clear (buf self) (buflen self) (?pos + k + 2 + len)"
        by (subst (asm) lookback_clear.simps) simp
      with b c show ?thesis by (simp add: add.assoc)
    qed
    from "1.IH" [OF splice(1) splice(2) splice(3) refl clear] b c
    have "fst (Scanner_get ?t) =
            (if buflen self - (?pos + k + 2) < len then Inl IncompleteLiteral
             else spliced_line_end (buf self) (buflen self) (?pos + k + 2 + len))"
      by (simp add: add.assoc)
    with r splice(4) ref nl show ?thesis by simp
  qed
qed

lemma past_payload_failure:
  "Scanner_get u = (Inl e, s') \<Longrightarrow> past_payload E u \<Longrightarrow> past_payload E s'"
proof (induction u rule: Scanner_get.induct)
  case (1 self)
  from "1.prems"(2) have inb: "start_find self \<le> buflen self"
    by (simp add: past_payload_def)
  from "1.prems"(1) show ?case
  proof (cases rule: Scanner_get_cases)
    case (lit s1)
    with skip_literal_Inl_eq [OF lit(1)] "1.prems"(2) show ?thesis
      by (auto simp: past_payload_def)
  next
    case (line s1)
    with skip_literal_Inr_eq [OF line(1)] skip_literal_Inr_bound [OF line(1) inb] "1.prems"(2)
    show ?thesis by (auto simp: past_payload_def split: if_splits)
  next
    case (fin s1 crlf)
    then show ?thesis by simp
  next
    case (bad s1 crlf)
    with skip_literal_Inr_eq [OF bad(1)] skip_literal_Inr_bound [OF bad(1) inb] "1.prems"(2)
    show ?thesis by (auto simp: past_payload_def)
  next
    case (splice s1 crlf len)
    let ?t = "s1\<lparr>literal_left := len, start_find := crlf + 2\<rparr>"
    from find_crlf_bound [OF splice(2)] skip_literal_Inr_eq [OF splice(1)] "1.prems"(2)
    have "past_payload E ?t" by (auto simp: past_payload_def)
    with "1.IH" [OF splice(1) splice(2) splice(3) refl splice(4) [symmetric]]
    show ?thesis by blast
  qed
qed

lemma past_payload_get:
  assumes "past_payload E u"
  shows "past_payload E (snd (Scanner_get u))"
    and "Scanner_get u = (Inr n, s') \<Longrightarrow> E < n"
proof -
  show "past_payload E (snd (Scanner_get u))"
  proof (cases "Scanner_get u")
    case (Pair res v)
    show ?thesis
    proof (cases res)
      case (Inl e)
      with Pair past_payload_failure [of u e v E] assms show ?thesis by simp
    next
      case (Inr m)
      with Pair Scanner_get_success [of u m v] assms show ?thesis
        by (auto simp: past_payload_def)
    qed
  qed
  show "Scanner_get u = (Inr n, s') \<Longrightarrow> E < n"
    using Scanner_get_success [of u n s'] assms by (auto simp: past_payload_def)
qed

lemma past_payload_feed:
  "past_payload E u \<Longrightarrow> past_payload E (snd (Scanner_feed u v l ok))"
  using Scanner_feed_fields [of u v l ok] by (auto simp: past_payload_def)

lemma past_payload_ops:
  "no_consume ops \<Longrightarrow> past_payload E u \<Longrightarrow> past_payload E (foldl apply_op u ops)"
proof (induction ops arbitrary: u)
  case Nil
  then show ?case by simp
next
  case (Cons x ops)
  from Cons.prems(1) have nc: "no_consume ops" and x: "\<forall>n. x \<noteq> Consume n"
    by (auto simp: no_consume_def)
  from x Cons.prems(2) have "past_payload E (apply_op u x)"
    by (cases x) (simp_all add: past_payload_feed past_payload_get(1))
  from Cons.IH [OF nc this] show ?case by simp
qed

text \<open>
  Claim C2, as the code has it. Let the first CR LF that \<open>get\<close> finds from the
  scan cursor be at offset \<open>c\<close>, with \<open>}\<close> right before it, before that the
  decimal digits from offset \<open>p\<close> on (at least one), and \<open>{\<close> before them; let
  \<open>L\<close> be the value of the digits.

  When \<open>L\<close> fits an \<open>unsigned long\<close>: \<open>get\<close> goes on as from the state whose
  literal counter is \<open>L\<close> and whose cursor is right after the CR LF, so that the
  next \<open>L\<close> bytes are skipped unread. No CR LF inside those \<open>L\<close> bytes is ever
  taken for the end of a line: a view returned by this call ends with a CR LF
  that begins at or after their end, and a view returned by any later \<open>get\<close>
  before a \<open>consume\<close>, whatever is fed in between, ends after their end. On every
  buffer where the look-back at each CR LF met after a payload gives the answer
  it gives on the bytes after that payload alone, the outcome of the call is
  that of the framing of the specification: on success the view spans offset 0
  through the end of the CR LF that ends the whole spliced line.

  When \<open>L\<close> does not fit, \<open>get\<close> fails with the literal length error and
  records no literal.
\<close>

theorem get_literal_splice:
  assumes "skip_literal s = Inr s1" and "find_crlf s1 = Some c"
    and "0 < p" and "p < c - 1"
    and "buf s ! (p - 1) = CHR ''{''"
    and "list_all isdigit (take (c - 1 - p) (drop p (buf s)))"
    and "buf s ! (c - 1) = CHR ''}''"
    and "L = digits_value (take (c - 1 - p) (drop p (buf s)))"
  shows "(L \<le> ULONG_MAX \<longrightarrow>
            Scanner_get s = Scanner_get (s1\<lparr>literal_left := L, start_find := c + 2\<rparr>) \<and>
            (\<forall>n s'. Scanner_get s = (Inr n, s') \<longrightarrow>
               c + 2 + L + 2 \<le> n \<and> n \<le> buflen s \<and> take 2 (drop (n - 2) (buf s)) = CRLF \<and>
               s' = s\<lparr>start_find := n - 2, literal_left := 0\<rparr>) \<and>
            (\<forall>ops n s'. no_consume ops \<and>
               Scanner_get (foldl apply_op (snd (Scanner_get s)) ops) = (Inr n, s') \<longrightarrow>
               c + 2 + L < n) \<and>
            (lookback_clear (buf s) (buflen s) (c + 2 + L) \<longrightarrow>
               fst (Scanner_get s) =
                 (if buflen s - (c + 2) < L then Inl IncompleteLiteral
                  else spliced_line_end (buf s) (buflen s) (c + 2 + L)))) \<and>
         (ULONG_MAX < L \<longrightarrow> Scanner_get s = (Inl BadLiteralLength, s1))"
proof -
  note e = skip_literal_Inr_eq [OF assms(1)]
  from e have b: "buf s1 = buf s" "buflen s1 = buflen s" by (cases s; auto)+
  note at = find_crlf_at [OF assms(2)]
  note bd = find_crlf_bound [OF assms(2)]
  have hdr: "literal_header (buf s1) c = Inr (if L > ULONG_MAX then None else Some L)"
    using literal_header_digits [of p c "buf s", OF assms(3,4) _ assms(5,6,7)] at(3) assms(8)
    unfolding b by (simp add: Let_def)
  let ?t = "s1\<lparr>literal_left := L, start_find := c + 2\<rparr>"
  have pt: "past_payload (c + 2 + L) ?t"
    using bd b by (simp add: past_payload_def)
  show ?thesis
  proof (intro conjI impI allI)
    assume L: "L \<le> ULONG_MAX"
    with hdr assms(1,2) show unroll: "Scanner_get s = Scanner_get ?t"
      by (subst Scanner_get.simps) simp
    {
      fix n s'
      assume "Scanner_get s = (Inr n, s')"
      with unroll have g: "Scanner_get ?t = (Inr n, s')" by simp
      from Scanner_get_success [OF g] b e
      have n: "c + 2 + L + 2 \<le> n" "n \<le> buflen s" "n \<le> length (buf s)"
        "buf s ! (n - 2) = CR" "buf s ! (n - 1) = LF"
        and s': "s' = ?t\<lparr>start_find := n - 2, literal_left := 0\<rparr>"
        by simp_all
      from n show "c + 2 + L + 2 \<le> n" "n \<le> buflen s" by simp_all
      from n obtain m where m: "n = Suc (Suc m)" by (cases n rule: nat.exhaust; cases "n - 1") auto
      with n show "take 2 (drop (n - 2) (buf s)) = CRLF"
        by (simp add: crlf_at_take_drop)
      from s' e show "s' = s\<lparr>start_find := n - 2, literal_left := 0\<rparr>"
        by (cases s) auto
    }
    {
      fix ops n s'
      assume a: "no_consume ops \<and>
        Scanner_get (foldl apply_op (snd (Scanner_get s)) ops) = (Inr n, s')"
      from past_payload_get(1) [OF pt] unroll
      have "past_payload (c + 2 + L) (snd (Scanner_get s))" by simp
      with a have "past_payload (c + 2 + L) (foldl apply_op (snd (Scanner_get s)) ops)"
        by (simp add: past_payload_ops)
      from past_payload_get(2) [OF this] a show "c + 2 + L < n" by blast
    }
    {
      assume "lookback_clear (buf s) (buflen s) (c + 2 + L)"
      with b have "lookback_clear (buf ?t) (buflen ?t) (start_find ?t + literal_left ?t)"
        by simp
      from Scanner_get_reference [OF this] unroll b
      show "fst (Scanner_get s) =
              (if buflen s - (c + 2) < L then Inl IncompleteLiteral
               else spliced_line_end (buf s) (buflen s) (c + 2 + L))"
        by simp
    }
  next
    assume "ULONG_MAX < L"
    with hdr assms(1,2) show "Scanner_get s = (Inl BadLiteralLength, s1)"
      by (subst Scanner_get.simps) simp
  qed
qed

lemmas ref_eval = spliced_line_end.simps lookback_clear.simps memmem_crlf.simps

text \<open>
  The theorem at a line with a literal of four bytes that are themselves CR LF
  CR LF: the look-back is clear, and the view returned is the whole spliced
  line of thirteen bytes, as the framing of the specification has it.
\<close>

theorem get_literal_splice_witness:
  "Scanner_get
     \<lparr>buf = ''a {4}'' @ CRLF @ CRLF @ CRLF @ CRLF, buflen = 13, bufcap = 13,
      start_find = 0, literal_left = 0\<rparr>
   = (Inr 13,
      \<lparr>buf = ''a {4}'' @ CRLF @ CRLF @ CRLF @ CRLF, buflen = 13, bufcap = 13,
       start_find = 11, literal_left = 0\<rparr>) \<and>
   lookback_clear (''a {4}'' @ CRLF @ CRLF @ CRLF @ CRLF) 13 11 \<and>
   spliced_line_end (''a {4}'' @ CRLF @ CRLF @ CRLF @ CRLF) 13 11 = Inr 13"
proof -
  let ?s = "\<lparr>buf = ''a {4}'' @ CRLF @ CRLF @ CRLF @ CRLF, buflen = 13, bufcap = 13,
             start_find = 0, literal_left = 0\<rparr>"
  have a: "skip_literal ?s = Inr ?s" by (simp add: skip_literal_def)
  have b: "find_crlf ?s = Some 5" by (simp add: find_crlf_def CR_def LF_def CRLF_def)
  have c: "(0::nat) < 3" "(3::nat) < 5 - 1" by simp_all
  have d: "buf ?s ! (3 - 1) = CHR ''{''" by simp
  have e: "list_all isdigit (take (5 - 1 - 3) (drop 3 (buf ?s)))"
    by (simp add: isdigit_def byte_def)
  have f: "buf ?s ! (5 - 1) = CHR ''}''" by simp
  have g: "4 = digits_value (take (5 - 1 - 3) (drop 3 (buf ?s)))"
    by (simp add: digits_value_def digit_val_def byte_def)
  have h: "(4::nat) \<le> ULONG_MAX" by (simp add: ULONG_MAX_def)
  have i: "Scanner_get (?s\<lparr>literal_left := 4, start_find := 5 + 2\<rparr>)
             = (Inr 13, ?s\<lparr>start_find := 11\<rparr>)"
    by (simp add: scan_eval)
  have j: "lookback_clear (buf ?s) (buflen ?s) (5 + 2 + 4)"
    by (simp add: ref_eval literal_header_def CR_def LF_def CRLF_def)
  have k: "spliced_line_end (''a {4}'' @ CRLF @ CRLF @ CRLF @ CRLF) 13 11 = Inr 13"
    by (simp add: ref_eval literal_header_def CR_def LF_def CRLF_def)
  from get_literal_splice [OF a b c d e f g] h i j k show ?thesis by simp
qed

text \<open>
  The hypothesis on the look-back leaves out the buffers of claim C1. On the
  LIST line whose literal holds the bytes \<open>{5}\<close>, followed by a second line,
  the look-back is not clear: the line of the specification has 24 bytes, and
  \<open>get\<close> returns one view of 32 bytes over both lines.
\<close>

lemma glued_lines_lookback_not_clear:
  "fst (Scanner_get
     \<lparr>buf = ''* LIST () '' @ [DQUOTE, CHR ''/'', DQUOTE] @ '' {3}'' @ CRLF @ ''{5}'' @ CRLF
              @ ''* OK x'' @ CRLF,
      buflen = 32, bufcap = 32, start_find = 0, literal_left = 0\<rparr>) = Inr 32 \<and>
   spliced_line_end
     (''* LIST () '' @ [DQUOTE, CHR ''/'', DQUOTE] @ '' {3}'' @ CRLF @ ''{5}'' @ CRLF
        @ ''* OK x'' @ CRLF) 32 22 = Inr 24 \<and>
   \<not> lookback_clear
     (''* LIST () '' @ [DQUOTE, CHR ''/'', DQUOTE] @ '' {3}'' @ CRLF @ ''{5}'' @ CRLF
        @ ''* OK x'' @ CRLF) 32 22"
  by (simp add: scan_eval ref_eval DQUOTE_def)

text \<open>
  A later call can end a view on a CR LF whose CR is the last byte of the
  payload, not inside it: after the literal of one byte is skipped and no CR LF
  is found, the cursor is left on the last byte of the buffer, here the CR of
  the payload, and the LF fed next completes a view of nine bytes.
\<close>

lemma get_after_payload_rewind:
  "Scanner_get
     (foldl apply_op
        (snd (Scanner_get
           \<lparr>buf = ''a {1}'' @ CRLF, buflen = 7, bufcap = 7, start_find = 0, literal_left = 0\<rparr>))
        [Feed [CR] None, Get, Feed [LF] None])
   = (Inr 9,
      \<lparr>buf = ''a {1}'' @ CRLF @ CRLF, buflen = 9, bufcap = 9, start_find = 7, literal_left = 0\<rparr>)"
  by (simp add: scan_eval feed_eval)

text \<open>
  The claim as written promises the splice for every run of digits. At the
  digits of \<open>2 ^ 64\<close> the call fails instead and the literal counter stays zero.
\<close>

theorem get_literal_splice_counterexample:
  "Scanner_get
     \<lparr>buf = ''{18446744073709551616}'' @ CRLF, buflen = 24, bufcap = 24,
      start_find = 0, literal_left = 0\<rparr>
   = (Inl BadLiteralLength,
      \<lparr>buf = ''{18446744073709551616}'' @ CRLF, buflen = 24, bufcap = 24,
       start_find = 0, literal_left = 0\<rparr>)"
  by (simp add: scan_eval)

subsection \<open>consume and feed on failure\<close>

text \<open>
  Claim C10. When the argument of \<open>consume\<close> exceeds the logical length the
  call fails (with the error for too many characters when the argument fits a
  \<open>size_t\<close>, with the conversion error otherwise) and the scanner it leaves is
  the scanner it was given: buffer, length, capacity, cursor and literal
  counter are unchanged.
\<close>

theorem consume_too_many_atomic:
  "int (buflen s) < n \<Longrightarrow>
     Scanner_consume s n = (Inl (if SIZE_MAX < n then Overflow else TooMany), s)"
  by (auto simp: Scanner_consume_def Let_def)

theorem consume_too_many_atomic_witness:
  "Scanner_consume
     \<lparr>buf = ''a {1}'' @ CRLF, buflen = 7, bufcap = 7, start_find = 7, literal_left = 1\<rparr> 8
   = (Inl TooMany,
      \<lparr>buf = ''a {1}'' @ CRLF, buflen = 7, bufcap = 7, start_find = 7, literal_left = 1\<rparr>)"
proof -
  let ?s = "\<lparr>buf = ''a {1}'' @ CRLF, buflen = 7, bufcap = 7, start_find = 7, literal_left = 1\<rparr>"
  have a: "int (buflen ?s) < 8" by simp
  from consume_too_many_atomic [OF a] show ?thesis by (simp add: SIZE_MAX_def)
qed

text \<open>
  A length that does not fit a \<open>Py_ssize_t\<close> is taken as -1: all bytes of the
  view but the last are appended, and the call ends in a \<open>SystemError\<close>.
\<close>

lemma feed_length_out_of_range:
  "Scanner_feed Scanner_new ''ab'' (Some (2 ^ 63)) True
     = (Inl ScanSystemError,
        \<lparr>buf = ''a'', buflen = 1, bufcap = 1, start_find = 0, literal_left = 0\<rparr>)"
  by (simp add: feed_eval)

text \<open>
  Claim C6 does not hold of the code: \<open>feed\<close> adds the length to \<open>buflen\<close>
  before it reallocates and does not take it back when the reallocation fails.
  A new scanner fed one byte, with the allocation failing, is left with a
  logical length of 1 over a capacity of 0.
\<close>

theorem feed_alloc_failure_changes_buflen:
  "Scanner_feed Scanner_new ''a'' None False = (Inl NoMemory, Scanner_new\<lparr>buflen := 1\<rparr>) \<and>
   buflen (snd (Scanner_feed Scanner_new ''a'' None False)) \<noteq> buflen Scanner_new \<and>
   bufcap (snd (Scanner_feed Scanner_new ''a'' None False))
     < buflen (snd (Scanner_feed Scanner_new ''a'' None False))"
  by (simp add: feed_eval)


section \<open>Properties of the parser\<close>

subsection \<open>Numbers\<close>

lemma digits_value_Cons:
  "digits_value (c # cs) = digit_val c * 10 ^ length cs + digits_value cs"
proof -
  have "foldl (\<lambda>a c. 10 * a + digit_val c) a cs
          = a * 10 ^ length cs + foldl (\<lambda>a c. 10 * a + digit_val c) 0 cs" for a
  proof (induction cs arbitrary: a)
    case Nil
    show ?case by simp
  next
    case (Cons d ds)
    have "foldl (\<lambda>a c. 10 * a + digit_val c) a (d # ds)
            = foldl (\<lambda>a c. 10 * a + digit_val c) (10 * a + digit_val d) ds" by simp
    also have "\<dots> = (10 * a + digit_val d) * 10 ^ length ds
                      + foldl (\<lambda>a c. 10 * a + digit_val c) 0 ds"
      by (rule Cons.IH)
    also have "foldl (\<lambda>a c. 10 * a + digit_val c) 0 (d # ds)
                 = digit_val d * 10 ^ length ds + foldl (\<lambda>a c. 10 * a + digit_val c) 0 ds"
      using Cons.IH [of "digit_val d"] by simp
    ultimately show ?case by (simp add: algebra_simps)
  qed
  from this [of "digit_val c"] show ?thesis by (simp add: digits_value_def)
qed

lemma digits_value_Nil [simp]: "digits_value [] = 0"
  by (simp add: digits_value_def)

lemma isdigit_val: "isdigit c \<Longrightarrow> digit_val c \<le> 9"
  by (auto simp: isdigit_def digit_val_def)

lemma overflow_check:
  assumes "d \<le> 9"
  shows "(res > ULLONG_MAX div 10 \<or> (res = ULLONG_MAX div 10 \<and> d > ULLONG_MAX mod 10))
           \<longleftrightarrow> res * 10 + d > ULLONG_MAX"
  using assms by (simp add: ULLONG_MAX_def) arith

lemma number_loop_digits:
  assumes "list_all isdigit ds" "rest = [] \<or> \<not> isdigit (hd rest)" "res \<le> ULLONG_MAX"
  shows "number_loop res (ds @ rest) =
           (if res * 10 ^ length ds + digits_value ds \<le> ULLONG_MAX
            then Inr (res * 10 ^ length ds + digits_value ds, rest)
            else Inl (ParseError ''number overflowed''))"
  using assms
proof (induction ds arbitrary: res)
  case Nil
  then show ?case by (cases rest) auto
next
  case (Cons c cs)
  from Cons.prems have c: "isdigit c" and cs: "list_all isdigit cs" by simp_all
  let ?d = "digit_val c"
  note d = isdigit_val [OF c]
  show ?case
  proof (cases "res * 10 + ?d > ULLONG_MAX")
    case True
    have "res * 10 + ?d \<le> (res * 10 + ?d) * 10 ^ length cs" by simp
    also have "\<dots> \<le> res * 10 ^ length (c # cs) + digits_value (c # cs)"
      by (simp add: digits_value_Cons algebra_simps)
    finally have big: "\<not> res * 10 ^ length (c # cs) + digits_value (c # cs) \<le> ULLONG_MAX"
      using True by simp
    from True d have ov: "res > ULLONG_MAX div 10 \<or> (res = ULLONG_MAX div 10 \<and> ?d > ULLONG_MAX mod 10)"
      by (simp add: overflow_check)
    have "number_loop res ((c # cs) @ rest) = Inl (ParseError ''number overflowed'')"
      by (simp only: append_Cons number_loop.simps c if_True Let_def ov)
    with big show ?thesis by (simp only: if_False)
  next
    case False
    then have le: "res * 10 + ?d \<le> ULLONG_MAX" by simp
    then have wrap: "(res * 10 mod 2 ^ 64 + ?d) mod 2 ^ 64 = res * 10 + ?d"
      by (simp add: ULLONG_MAX_def)
    from False d have nov: "\<not> (res > ULLONG_MAX div 10 \<or> (res = ULLONG_MAX div 10 \<and> ?d > ULLONG_MAX mod 10))"
      by (simp add: overflow_check)
    have eq: "(res * 10 + ?d) * 10 ^ length cs + digits_value cs
                = res * 10 ^ length (c # cs) + digits_value (c # cs)"
      by (simp add: digits_value_Cons algebra_simps)
    have "number_loop res ((c # cs) @ rest) = number_loop (res * 10 + ?d) (cs @ rest)"
      by (simp only: append_Cons number_loop.simps c if_True Let_def nov if_False wrap)
    with Cons.IH [OF cs Cons.prems(2) le] show ?thesis
      by (simp only: eq)
  qed
qed

lemma parse_number_raw_digits:
  assumes "ds \<noteq> []" and "list_all isdigit ds" and "rest = [] \<or> \<not> isdigit (hd rest)"
  shows "parse_number_raw (ds @ rest) =
           (if digits_value ds \<le> 18446744073709551615 then (Inr (digits_value ds), rest)
            else (Inl (ParseError ''number overflowed''), ds @ rest)) \<and>
         parse_number (ds @ rest) = parse_number_raw (ds @ rest)"
proof -
  have m: "ULLONG_MAX = 18446744073709551615" by (simp add: ULLONG_MAX_def)
  from number_loop_digits [OF assms(2,3), of 0]
  have "number_loop 0 (ds @ rest) =
          (if digits_value ds \<le> 18446744073709551615 then Inr (digits_value ds, rest)
           else Inl (ParseError ''number overflowed''))"
    by (simp add: m)
  with assms(1) show ?thesis
    by (simp add: parse_number_raw_def parse_number_def)
qed

text \<open>
  Claim C7. \<open>_parse_number\<close>, at a run of one or more decimal digits that
  ends at the end of the input or before a byte that is no digit: when the
  value of the run is at most 18446744073709551615 the result is exactly that
  value, with the cursor after the run; when it is larger the result is the
  parse error for an overflow, with the cursor unmoved. Every context that
  parses a number does so through this function, \<open>parse_number\<close> included.
\<close>

theorem parse_number_exact:
  assumes "ds \<noteq> []" and "list_all isdigit ds" and "rest = [] \<or> \<not> isdigit (hd rest)"
  shows "parse_number_raw (ds @ rest) =
           (if digits_value ds \<le> 18446744073709551615 then (Inr (digits_value ds), rest)
            else (Inl (ParseError ''number overflowed''), ds @ rest)) \<and>
         parse_number (ds @ rest) = parse_number_raw (ds @ rest)"
  using assms by (rule parse_number_raw_digits)

theorem parse_number_exact_witness:
  "parse_number_raw ''18446744073709551615 '' = (Inr 18446744073709551615, '' '') \<and>
   parse_number_raw ''18446744073709551616'' =
     (Inl (ParseError ''number overflowed''), ''18446744073709551616'')"
proof -
  have a: "''18446744073709551615'' \<noteq> []" "''18446744073709551616'' \<noteq> []" by simp_all
  have b: "list_all isdigit ''18446744073709551615''" "list_all isdigit ''18446744073709551616''"
    by (simp_all add: isdigit_def byte_def)
  have c: "'' '' = [] \<or> \<not> isdigit (hd '' '')" "[] = [] \<or> \<not> isdigit (hd [])"
    by (simp_all add: isdigit_def byte_def)
  have d: "digits_value ''18446744073709551615'' = 18446744073709551615"
    "digits_value ''18446744073709551616'' = 18446744073709551616"
    by (simp_all add: digits_value_def digit_val_def byte_def)
  from parse_number_exact [OF a(1) b(1) c(1)] parse_number_exact [OF a(2) b(2) c(2)] d
  show ?thesis by simp
qed

subsection \<open>Evaluation on concrete inputs\<close>

lemmas parse_eval =
  pbind_def preturn_def pfail_def PEEKC_def GETC_def EXPECTC_def EXPECTS_def py_repr_def
  bufcspn_def parse_cspn_def parse_atom_def parse_token_def imap4_token_def token_table_def
  toupper_def is_token_char_def parse_number_raw_def parse_number_def parse_string_def
  ascii_decode_def parse_string_ascii_def parse_astring_def parse_mailbox_def
  atom_specials_def astring_reject_def resp_text_code_reject_def text_reject_def tag_reject_def
  is_CTL_def isdigit_def digit_val_def byte_def CR_def LF_def CRLF_def DQUOTE_def BSLASH_def
  ULLONG_MAX_def PY_SSIZE_T_MAX_def TRUNCATED_PARSE_def Let_def

lemmas response_eval =
  parse_resp_text_def sequence_set_loop.simps parse_sequence_set_def esearch_returns.simps
  parse_esearch_response_def capability_loop.simps search_att_loop.simps parse_search_att_def
  flag_extension_atom_def flag_list_loop.simps parse_flag_list_def mbx_list_flags_loop.simps
  parse_mbx_list_flags_def parse_mailbox_list_def status_att_loop.simps parse_status_att_def
  parse_message_data_def parse_response_data_def parse_response_tagged_def
  parse_continue_req_def parse_response_def parse_response_line_def parse_imap_string_def
  parse_imap_astring_def msg_att_absent_def error_pending_def

subsection \<open>The entry points\<close>

lemma productions_empty:
  "parse_response parse_msg_att [] = (Inl TRUNCATED_PARSE, [])"
  "parse_string [] = (Inl TRUNCATED_PARSE, [])"
  "parse_astring [] = (Inl TRUNCATED_PARSE, [])"
  by (simp_all add: parse_response_def parse_string_def parse_astring_def pbind_def
        PEEKC_def GETC_def)

text \<open>
  Claim C8. Each of the three entry points returns the parse error "nothing
  to parse" on the empty input, and whenever its production succeeds with
  input left after the cursor it returns the parse error for trailing
  characters, whatever the production has parsed.
\<close>

theorem entry_points_whole_input:
  "parse_response_line parse_msg_att [] = Inl (ParseError ''nothing to parse'') \<and>
   parse_imap_string [] = Inl (ParseError ''nothing to parse'') \<and>
   parse_imap_astring [] = Inl (ParseError ''nothing to parse'') \<and>
   (parse_response parse_msg_att view = (Inr res, rest) \<and> rest \<noteq> [] \<longrightarrow>
      parse_response_line parse_msg_att view
        = Inl (ParseError ''trailing characters after response'')) \<and>
   (parse_string view = (Inr str, rest) \<and> rest \<noteq> [] \<longrightarrow>
      parse_imap_string view = Inl (ParseError ''trailing characters after string'')) \<and>
   (parse_astring view = (Inr str, rest) \<and> rest \<noteq> [] \<longrightarrow>
      parse_imap_astring view = Inl (ParseError ''trailing characters after astring''))"
proof (intro conjI impI)
  show "parse_response_line parse_msg_att [] = Inl (ParseError ''nothing to parse'')"
    by (simp add: parse_response_line_def)
  show "parse_imap_string [] = Inl (ParseError ''nothing to parse'')"
    by (simp add: parse_imap_string_def)
  show "parse_imap_astring [] = Inl (ParseError ''nothing to parse'')"
    by (simp add: parse_imap_astring_def)
next
  assume a: "parse_response parse_msg_att view = (Inr res, rest) \<and> rest \<noteq> []"
  with productions_empty(1) [of parse_msg_att] have "view \<noteq> []" by auto
  with a show "parse_response_line parse_msg_att view
                 = Inl (ParseError ''trailing characters after response'')"
    by (simp add: parse_response_line_def)
next
  assume a: "parse_string view = (Inr str, rest) \<and> rest \<noteq> []"
  with productions_empty(2) have "view \<noteq> []" by auto
  with a show "parse_imap_string view = Inl (ParseError ''trailing characters after string'')"
    by (simp add: parse_imap_string_def)
next
  assume a: "parse_astring view = (Inr str, rest) \<and> rest \<noteq> []"
  with productions_empty(3) have "view \<noteq> []" by auto
  with a show "parse_imap_astring view = Inl (ParseError ''trailing characters after astring'')"
    by (simp add: parse_imap_astring_def)
qed

theorem entry_points_whole_input_witness:
  "parse_response_line msg_att_absent (''+ idling'' @ CRLF @ ''x'')
     = Inl (ParseError ''trailing characters after response'') \<and>
   parse_imap_string ([DQUOTE, CHR ''a'', DQUOTE, CHR ''x''])
     = Inl (ParseError ''trailing characters after string'') \<and>
   parse_imap_astring ''ab cd'' = Inl (ParseError ''trailing characters after astring'')"
proof -
  have a: "parse_response msg_att_absent (''+ idling'' @ CRLF @ ''x'')
             = (Inr (ContinueReq (ResponseText (Some ''idling'') None None)), ''x'') \<and> ''x'' \<noteq> []"
    by (simp add: parse_eval response_eval)
  have b: "parse_string [DQUOTE, CHR ''a'', DQUOTE, CHR ''x''] = (Inr ''a'', ''x'') \<and> ''x'' \<noteq> []"
    by (simp add: parse_eval)
  have c: "parse_astring ''ab cd'' = (Inr ''ab'', '' cd'') \<and> '' cd'' \<noteq> []"
    by (simp add: parse_eval)
  from a entry_points_whole_input [of msg_att_absent "''+ idling'' @ CRLF @ ''x''"]
  have 1: "parse_response_line msg_att_absent (''+ idling'' @ CRLF @ ''x'')
     = Inl (ParseError ''trailing characters after response'')" by blast
  from b entry_points_whole_input [of _ "[DQUOTE, CHR ''a'', DQUOTE, CHR ''x'']"]
  have 2: "parse_imap_string ([DQUOTE, CHR ''a'', DQUOTE, CHR ''x''])
     = Inl (ParseError ''trailing characters after string'')" by blast
  from c entry_points_whole_input [of _ "''ab cd''"]
  have 3: "parse_imap_astring ''ab cd'' = Inl (ParseError ''trailing characters after astring'')"
    by blast
  from 1 2 3 show ?thesis by simp
qed

subsection \<open>Quoted strings and literals\<close>

lemma quote_escape_Cons:
  "quote_escape (c # t) = (if c = DQUOTE \<or> c = BSLASH then [BSLASH, c] else [c]) @ quote_escape t"
  by (simp add: quote_escape_def)

lemma quote_escape_Nil [simp]: "quote_escape [] = []"
  by (simp add: quote_escape_def)

lemma DQUOTE_neq_BSLASH [simp]: "DQUOTE \<noteq> BSLASH" "BSLASH \<noteq> DQUOTE"
  by (simp_all add: DQUOTE_def BSLASH_def)

lemma quoted_loop_escape:
  "quoted_loop acc (quote_escape t @ DQUOTE # rest) = Inr (acc @ t, DQUOTE # rest)"
proof (induction t arbitrary: acc)
  case Nil
  show ?case by simp
next
  case (Cons c t)
  show ?case
    using Cons [of "acc @ [c]"] by (auto simp: quote_escape_Cons)
qed

lemma quoted_loop_bad_escape:
  assumes "d \<noteq> DQUOTE" "d \<noteq> BSLASH"
  shows "quoted_loop acc (quote_escape t @ BSLASH # d # rest)
           = Inl (ParseError ''invalid quoted character'')"
proof (induction t arbitrary: acc)
  case Nil
  from assms show ?case by simp
next
  case (Cons c t)
  show ?case
    using Cons [of "acc @ [c]"] by (auto simp: quote_escape_Cons)
qed

lemma parse_string_quoted: "parse_string (quoted t @ rest) = (Inr t, rest)"
  by (simp add: parse_string_def quoted_def pbind_def GETC_def quoted_loop_escape
        EXPECTC_def preturn_def)

lemma parse_string_literal:
  assumes "ds \<noteq> []" "list_all isdigit ds" "digits_value ds = length t"
    and "length t \<le> PY_SSIZE_T_MAX"
  shows "parse_string (literal ds t @ rest) = (Inr t, rest)"
proof -
  have brace: "CHR ''}'' # CRLF @ t @ rest = [] \<or> \<not> isdigit (hd (CHR ''}'' # CRLF @ t @ rest))"
    by simp
  from assms(3,4) have small: "digits_value ds \<le> 18446744073709551615"
    by (simp add: PY_SSIZE_T_MAX_def)
  from parse_number_raw_digits [OF assms(1,2) brace] small assms(3)
  have num: "parse_number_raw (ds @ CHR ''}'' # CRLF @ t @ rest)
               = (Inr (length t), CHR ''}'' # CRLF @ t @ rest)"
    by simp
  have neq: "CHR ''{'' \<noteq> DQUOTE" by (simp add: DQUOTE_def)
  from num assms(4) neq show ?thesis
    by (simp add: parse_string_def literal_def pbind_def GETC_def EXPECTS_def CRLF_def
          pfail_def)
qed

text \<open>
  Claim C4, as the code has it. In a quoted string given to
  \<open>parse_imap_string\<close> a backslash before a byte other than the quote and
  the backslash is the parse error "invalid quoted character", and the quoted
  form of any bytes \<open>t\<close>, in which only quotes and backslashes are escaped,
  parses to \<open>t\<close>: a CR or LF between the quotes is not rejected, it is part of
  the result like any other byte.
\<close>

theorem quoted_string_escapes:
  "(d \<noteq> DQUOTE \<and> d \<noteq> BSLASH \<longrightarrow>
      parse_imap_string (DQUOTE # quote_escape t @ BSLASH # d # rest)
        = Inl (ParseError ''invalid quoted character'')) \<and>
   parse_imap_string (quoted t) = Inr t"
proof (intro conjI impI)
  assume "d \<noteq> DQUOTE \<and> d \<noteq> BSLASH"
  then show "parse_imap_string (DQUOTE # quote_escape t @ BSLASH # d # rest)
               = Inl (ParseError ''invalid quoted character'')"
    by (simp add: parse_imap_string_def parse_string_def pbind_def GETC_def
          quoted_loop_bad_escape)
next
  from parse_string_quoted [of t "[]"] show "parse_imap_string (quoted t) = Inr t"
    by (simp add: parse_imap_string_def quoted_def)
qed

theorem quoted_string_escapes_witness:
  "parse_imap_string [DQUOTE, CHR ''a'', BSLASH, CHR ''n'', CHR ''b'', DQUOTE]
     = Inl (ParseError ''invalid quoted character'') \<and>
   parse_imap_string [DQUOTE, CHR ''a'', BSLASH, DQUOTE, BSLASH, BSLASH, CR, LF, DQUOTE]
     = Inr [CHR ''a'', DQUOTE, BSLASH, CR, LF]"
proof -
  have a: "CHR ''n'' \<noteq> DQUOTE \<and> CHR ''n'' \<noteq> BSLASH" by (simp add: DQUOTE_def BSLASH_def)
  from a quoted_string_escapes [of "CHR ''n''" "''a''" "[CHR ''b'', DQUOTE]"]
    quoted_string_escapes [of _ "[CHR ''a'', DQUOTE, BSLASH, CR, LF]"]
  show ?thesis
    by (simp add: quote_escape_def quoted_def DQUOTE_def BSLASH_def CR_def LF_def)
qed

text \<open>
  The claim as written has a bare CR or LF inside the quotes rejected. The
  loop over the quoted string has no test for them: the string below, with CR
  LF between \<open>a\<close> and \<open>b\<close>, parses to the four bytes.
\<close>

theorem quoted_string_crlf_counterexample:
  "parse_imap_string [DQUOTE, CHR ''a'', CR, LF, CHR ''b'', DQUOTE] = Inr [CHR ''a'', CR, LF, CHR ''b'']"
  by (simp add: parse_imap_string_def parse_eval)

subsection \<open>The search correlator of ESEARCH\<close>

lemma parse_string_ascii_forms:
  assumes "list_all (\<lambda>c. byte c < 128) t"
    and "x = quoted t \<or>
         (ds \<noteq> [] \<and> list_all isdigit ds \<and> digits_value ds = length t \<and>
          length t \<le> PY_SSIZE_T_MAX \<and> x = literal ds t)"
  shows "parse_string_ascii (x @ r) = (Inr t, r)"
proof -
  from assms(2) have "parse_string (x @ r) = (Inr t, r)"
    by (auto simp: parse_string_quoted parse_string_literal)
  with assms(1) show ?thesis
    by (simp add: parse_string_ascii_def ascii_decode_def)
qed

lemma parse_token_ESEARCH:
  "parse_token (''ESEARCH'' @ CHR '' '' # r) = (Inr (Some IMAP4_ESEARCH), CHR '' '' # r)"
  by (simp add: parse_token_def is_token_char_def byte_def imap4_token_def token_table_def
        toupper_def)

text \<open>
  Claim C5, as the code has it. The tag of the search correlator is parsed as
  an IMAP string (\<open>parse_string_ascii\<close>), not as an astring. For every input
  \<open>* ESEARCH (TAG x)\<close> followed by \<open>rest\<close>, where \<open>x\<close> is the quoted form or
  a literal form of ASCII bytes \<open>t\<close> and \<open>rest\<close> is a run of return items that
  the loop of \<open>parse_esearch_response\<close> parses up to the final CR LF,
  \<open>parse_response_line\<close> succeeds and returns an untagged ESEARCH response
  whose \<open>Esearch\<close> holds the tag \<open>t\<close>, with the flag and the items of the loop.
\<close>

theorem esearch_tag_is_string:
  assumes "list_all (\<lambda>c. byte c < 128) t"
    and "x = quoted t \<or>
         (ds \<noteq> [] \<and> list_all isdigit ds \<and> digits_value ds = length t \<and>
          length t \<le> PY_SSIZE_T_MAX \<and> x = literal ds t)"
    and "esearch_returns False Map.empty rest = (Inr (uid, returned), CRLF)"
  shows "parse_response_line parse_msg_att (''* ESEARCH (TAG '' @ x @ '')'' @ rest)
           = Inr (UntaggedResponse IMAP4_ESEARCH (DataEsearch (Esearch (Tag t) uid returned)))"
proof -
  from parse_string_ascii_forms [OF assms(1,2)]
  have tag: "parse_string_ascii (x @ CHR '')'' # rest) = (Inr t, CHR '')'' # rest)" .
  have corr: "parse_esearch_response ('' (TAG '' @ x @ '')'' @ rest)
                = (Inr (Esearch (Tag t) uid returned), CRLF)"
    using tag assms(3)
    by (simp add: parse_esearch_response_def pbind_def PEEKC_def GETC_def EXPECTS_def
          EXPECTC_def preturn_def)
  have data: "parse_response_data parse_msg_att (''* ESEARCH (TAG '' @ x @ '')'' @ rest)
                = (Inr (UntaggedResponse IMAP4_ESEARCH
                          (DataEsearch (Esearch (Tag t) uid returned))), [])"
    using corr parse_token_ESEARCH [of "''(TAG '' @ x @ '')'' @ rest"]
    by (simp add: parse_response_data_def pbind_def PEEKC_def EXPECTS_def preturn_def
          isdigit_def byte_def CRLF_def)
  then show ?thesis
    by (simp add: parse_response_line_def parse_response_def pbind_def PEEKC_def
          error_pending_def)
qed

theorem esearch_tag_is_string_witness:
  "parse_response_line msg_att_absent
     (''* ESEARCH (TAG '' @ [DQUOTE] @ ''A282'' @ [DQUOTE] @ '') UID ALL 1:3,5 COUNT 4'' @ CRLF)
     = Inr (UntaggedResponse IMAP4_ESEARCH
         (DataEsearch (Esearch (Tag ''A282'') True
            [IMAP4_ALL \<mapsto> EsSequence [SeqRange 1 3, SeqNumber 5], IMAP4_COUNT \<mapsto> EsNumber 4]))) \<and>
   parse_response_line msg_att_absent
     (''* ESEARCH (TAG {04}'' @ CRLF @ ''A282) MIN 7'' @ CRLF)
     = Inr (UntaggedResponse IMAP4_ESEARCH
         (DataEsearch (Esearch (Tag ''A282'') False [IMAP4_MIN \<mapsto> EsNumber 7])))"
proof -
  have a: "list_all (\<lambda>c. byte c < 128) ''A282''" by (simp add: byte_def)
  have b: "[DQUOTE] @ ''A282'' @ [DQUOTE] = quoted ''A282'' \<or>
           (''04'' \<noteq> [] \<and> list_all isdigit ''04'' \<and> digits_value ''04'' = length ''A282'' \<and>
            length ''A282'' \<le> PY_SSIZE_T_MAX \<and> [DQUOTE] @ ''A282'' @ [DQUOTE] = literal ''04'' ''A282'')"
    by (simp add: quoted_def quote_escape_def DQUOTE_def BSLASH_def)
  have c: "''{04}'' @ CRLF @ ''A282'' = quoted ''A282'' \<or>
           (''04'' \<noteq> [] \<and> list_all isdigit ''04'' \<and> digits_value ''04'' = length ''A282'' \<and>
            length ''A282'' \<le> PY_SSIZE_T_MAX \<and> ''{04}'' @ CRLF @ ''A282'' = literal ''04'' ''A282'')"
    by (simp add: literal_def isdigit_def byte_def digits_value_def digit_val_def
          PY_SSIZE_T_MAX_def)
  have d: "esearch_returns False Map.empty ('' UID ALL 1:3,5 COUNT 4'' @ CRLF)
             = (Inr (True, [IMAP4_ALL \<mapsto> EsSequence [SeqRange 1 3, SeqNumber 5],
                            IMAP4_COUNT \<mapsto> EsNumber 4]), CRLF)"
    by (simp add: parse_eval response_eval)
  have e: "esearch_returns False Map.empty ('' MIN 7'' @ CRLF)
             = (Inr (False, [IMAP4_MIN \<mapsto> EsNumber 7]), CRLF)"
    by (simp add: parse_eval response_eval)
  from esearch_tag_is_string [OF a b d, of msg_att_absent]
    esearch_tag_is_string [OF a c e, of msg_att_absent]
  show ?thesis by simp
qed

text \<open>
  The claim as written takes an atom for the tag too. At the atom \<open>A282\<close>
  \<open>parse_string\<close> fails on the first byte and the line is a parse error.
\<close>

theorem esearch_tag_atom_counterexample:
  "parse_response_line msg_att_absent (''* ESEARCH (TAG A282) UID'' @ CRLF)
     = Inl (ParseError (''expected '' @ [CHR 0x27, CHR '')'', CHR 0x27]))"
  by (simp add: parse_eval response_eval)

text \<open>
  At a tag of one byte that is no string, \<open>parse_string\<close> fails after that
  byte, the closing parenthesis is found, and the response is returned with
  the NULL tag and the exception set: the call ends in a \<open>SystemError\<close>.
\<close>

lemma esearch_tag_one_byte_atom:
  "parse_response_line msg_att_absent (''* ESEARCH (TAG x) UID'' @ CRLF) = Inl SystemError"
  by (simp add: parse_eval response_eval)

subsection \<open>Framing\<close>

text \<open>
  The framing loop on two lines, the first with a literal whose bytes hold a
  CR LF: both lines come out, in order, and nothing is left.
\<close>

lemma pump_frames_two_lines:
  "fst (pump Scanner_new (''a {4}'' @ CRLF @ ''x'' @ CRLF @ ''y)'' @ CRLF @ ''b'' @ CRLF))
     = [''a {4}'' @ CRLF @ ''x'' @ CRLF @ ''y)'' @ CRLF, ''b'' @ CRLF] \<and>
   buflen (snd (pump Scanner_new (''a {4}'' @ CRLF @ ''x'' @ CRLF @ ''y)'' @ CRLF @ ''b'' @ CRLF)))
     = 0"
  by (simp add: scan_eval feed_eval consume_eval)

text \<open>
  Claim C1 does not hold of the code. The output below is one response line,
  a LIST response whose mailbox name is sent as a literal of three bytes, the
  bytes \<open>{5}\<close>, and which ends right after the literal; the parser of this
  repository takes it as one complete line. When the CR LF that ends the line
  arrives, \<open>get\<close> looks at the bytes before it, which are the bytes of the
  literal, takes them for the header of another literal of five bytes and
  waits for those: fed byte by byte, the line is never returned and the
  scanner keeps all its 24 bytes.
\<close>

theorem pump_literal_tail_not_framed:
  "pump Scanner_new (''* LIST () '' @ [DQUOTE, CHR ''/'', DQUOTE] @ '' {3}'' @ CRLF @ ''{5}'' @ CRLF)
     = ([],
        \<lparr>buf = ''* LIST () '' @ [DQUOTE, CHR ''/'', DQUOTE] @ '' {3}'' @ CRLF @ ''{5}'' @ CRLF,
         buflen = 24, bufcap = 24, start_find = 24, literal_left = 5\<rparr>) \<and>
   parse_response_line msg_att_absent
       (''* LIST () '' @ [DQUOTE, CHR ''/'', DQUOTE] @ '' {3}'' @ CRLF @ ''{5}'' @ CRLF)
     = Inr (UntaggedResponse IMAP4_LIST (DataList (ListData {} (Some (CHR ''/'')) ''{5}'')))"
proof (rule conjI)
  show "pump Scanner_new
          (''* LIST () '' @ [DQUOTE, CHR ''/'', DQUOTE] @ '' {3}'' @ CRLF @ ''{5}'' @ CRLF)
        = ([],
           \<lparr>buf = ''* LIST () '' @ [DQUOTE, CHR ''/'', DQUOTE] @ '' {3}'' @ CRLF @ ''{5}'' @ CRLF,
            buflen = 24, bufcap = 24, start_find = 24, literal_left = 5\<rparr>)"
    by (simp add: scan_eval feed_eval consume_eval DQUOTE_def)
  show "parse_response_line msg_att_absent
          (''* LIST () '' @ [DQUOTE, CHR ''/'', DQUOTE] @ '' {3}'' @ CRLF @ ''{5}'' @ CRLF)
        = Inr (UntaggedResponse IMAP4_LIST (DataList (ListData {} (Some (CHR ''/'')) ''{5}'')))"
    by (simp add: parse_eval response_eval)
qed

end
